theory Spec2Isabelle
  imports Main "HOL-Library.AList"
begin

section \<open>authentik core config loader (authentik/lib/config.py)\<close>

subsection \<open>Python values and exceptions\<close>

text \<open>
  \<open>Attr.Source\<close>: where a configuration attribute comes from.
\<close>

datatype source = UNSPECIFIED | ENV | CONFIG_FILE | URI

text \<open>
  The objects the loader handles. Python is dynamically typed, so the configuration
  tree, the mappings merged into it and the values inside an \<open>Attr\<close> are all of
  one type. A \<open>dict\<close> is an association list read through \<open>map_of\<close> and
  written through \<open>AList.update\<close> and \<open>AList.delete\<close>; \<open>PAttr v st s\<close> is
  the dataclass \<open>Attr(value=v, source_type=st, source=s)\<close>; \<open>PUnset\<close> is the
  class object \<open>UNSET\<close>. Floating point numbers are left out.
\<close>

datatype obj =
    PNone
  | PBool bool
  | PInt int
  | PStr string
  | PList "obj list"
  | PDict "(string \<times> obj) list"
  | PAttr obj source "string option"
  | PUnset

datatype error =
    TypeError
  | AttributeError
  | ValueError
  | KeyError
  | IndexError
  | RuntimeError
  | ImportError
  | PermissionError
  | OSError
  | YAMLError
  | ImproperlyConfigured

text \<open>
  \<open>Attr.__post_init__\<close>: an \<open>Attr\<close> whose value is an \<open>Attr\<close> raises
  \<open>RuntimeError\<close>.
\<close>

fun Attr :: "obj \<Rightarrow> source \<Rightarrow> string option \<Rightarrow> error + obj" where
  "Attr (PAttr v st s) st' s' = Inl RuntimeError"
| "Attr v st' s' = Inr (PAttr v st' s')"

text \<open>Attribute access \<open>o.value\<close>, \<open>o.source_type\<close> and \<open>o.source\<close>.\<close>

fun dot_value :: "obj \<Rightarrow> error + obj" where
  "dot_value (PAttr v st s) = Inr v"
| "dot_value x = Inl AttributeError"



subsection \<open>The operations on objects that the loader uses\<close>

text \<open>Truth value of an object, as \<open>if root\<close> and \<open>not root\<close> test it.\<close>

fun truthy :: "obj \<Rightarrow> bool" where
  "truthy PNone = False"
| "truthy (PBool b) = b"
| "truthy (PInt n) = (n \<noteq> 0)"
| "truthy (PStr s) = (s \<noteq> [])"
| "truthy (PList xs) = (xs \<noteq> [])"
| "truthy (PDict m) = (m \<noteq> [])"
| "truthy (PAttr v st s) = True"
| "truthy PUnset = True"

fun is_substr :: "string \<Rightarrow> string \<Rightarrow> bool" where
  "is_substr sub [] = (sub = [])"
| "is_substr sub (c # cs) = (take (length sub) (c # cs) = sub \<or> is_substr sub cs)"

text \<open>
  \<open>part in root\<close> for a string \<open>part\<close>: key membership in a dict, substring test in
  a string, element test in a list, \<open>TypeError\<close> for an object that is no container
  (an \<open>Attr\<close> has neither \<open>__contains__\<close> nor \<open>__iter__\<close>).
\<close>

fun contains :: "string \<Rightarrow> obj \<Rightarrow> error + bool" where
  "contains part (PDict m) = Inr (map_of m part \<noteq> None)"
| "contains part (PStr s) = Inr (is_substr part s)"
| "contains part (PList xs) = Inr (PStr part \<in> set xs)"
| "contains part x = Inl TypeError"

text \<open>\<open>root.get(part, dflt)\<close>: only a dict has the method.\<close>

fun dict_get :: "obj \<Rightarrow> string \<Rightarrow> obj \<Rightarrow> error + obj" where
  "dict_get (PDict m) part dflt = Inr (case map_of m part of Some v \<Rightarrow> v | None \<Rightarrow> dflt)"
| "dict_get x part dflt = Inl AttributeError"

text \<open>\<open>root[part]\<close> with a string subscript.\<close>

fun getitem :: "obj \<Rightarrow> string \<Rightarrow> error + obj" where
  "getitem (PDict m) part = (case map_of m part of Some v \<Rightarrow> Inr v | None \<Rightarrow> Inl KeyError)"
| "getitem x part = Inl TypeError"

text \<open>\<open>root[part] = v\<close> with a string subscript.\<close>

fun setitem :: "obj \<Rightarrow> string \<Rightarrow> obj \<Rightarrow> error + obj" where
  "setitem (PDict m) part v = Inr (PDict (AList.update part v m))"
| "setitem x part v = Inl TypeError"

text \<open>
  \<open>root.pop(part)\<close>: the value removed and the dict without the key. A list has a
  \<open>pop\<close> that takes an index (a string raises \<open>TypeError\<close>); the other objects
  have no such method.
\<close>

fun pop :: "obj \<Rightarrow> string \<Rightarrow> error + (obj \<times> obj)" where
  "pop (PDict m) part =
     (case map_of m part of
        Some v \<Rightarrow> Inr (v, PDict (AList.delete part m))
      | None \<Rightarrow> Inl KeyError)"
| "pop (PList xs) part = Inl TypeError"
| "pop x part = Inl AttributeError"

subsection \<open>Splitting a path\<close>

text \<open>
  \<open>path.split(sep)\<close>: the pieces between the non-overlapping occurrences of
  \<open>sep\<close>, found from the left; an empty separator raises \<open>ValueError\<close>.
\<close>

function split_from :: "string \<Rightarrow> string \<Rightarrow> string \<Rightarrow> string list" where
  "split_from sep acc [] = [rev acc]"
| "split_from sep acc (c # cs) =
     (if sep \<noteq> [] \<and> take (length sep) (c # cs) = sep
      then rev acc # split_from sep [] (drop (length sep) (c # cs))
      else split_from sep (c # acc) cs)"
  by pat_completeness auto
termination
  by (relation "measure (\<lambda>(sep, acc, s). length s)") (auto simp: neq_Nil_conv)

definition split :: "string \<Rightarrow> string \<Rightarrow> error + string list" where
  "split path sep = (if sep = [] then Inl ValueError else Inr (split_from sep [] path))"

subsection \<open>Path accessors\<close>

text \<open>
  The loop of \<open>get_path_from_dict\<close> over the components of the path.
\<close>

fun get_path_loop :: "obj \<Rightarrow> string list \<Rightarrow> obj \<Rightarrow> error + obj" where
  "get_path_loop root [] dflt = Inr root"
| "get_path_loop root (part # parts) dflt =
     (if truthy root then
        (case contains part root of
           Inl e \<Rightarrow> Inl e
         | Inr True \<Rightarrow>
             (case dict_get root part PNone of
                Inl e \<Rightarrow> Inl e
              | Inr r \<Rightarrow> get_path_loop r parts dflt)
         | Inr False \<Rightarrow> Inr dflt)
      else Inr dflt)"

definition get_path_from_dict :: "obj \<Rightarrow> string \<Rightarrow> string \<Rightarrow> obj \<Rightarrow> error + obj" where
  "get_path_from_dict root path sep dflt =
     (case split path sep of
        Inl e \<Rightarrow> Inl e
      | Inr parts \<Rightarrow> get_path_loop root parts dflt)"

text \<open>
  \<open>set_path_in_dict\<close>: the loop over \<open>path_parts[:-1]\<close> followed by the
  assignment to \<open>path_parts[-1]\<close>. The dicts are mutated in place, so the function
  returns the root with the change made where the walk arrived. (\<open>split\<close> never
  returns an empty list; on one, \<open>path_parts[-1]\<close> would raise \<open>IndexError\<close>.)
  When the walk raises, the exception is the result and the dicts created on the way are
  not reported.
\<close>

fun set_path_loop :: "obj \<Rightarrow> string list \<Rightarrow> obj \<Rightarrow> error + obj" where
  "set_path_loop root [] v = Inl IndexError"
| "set_path_loop root [l] v = setitem root l v"
| "set_path_loop root (part # parts) v =
     (case contains part root of
        Inl e \<Rightarrow> Inl e
      | Inr present \<Rightarrow>
          (case (if present then Inr root else setitem root part (PDict [])) of
             Inl e \<Rightarrow> Inl e
           | Inr root1 \<Rightarrow>
               (case dict_get root1 part (PDict []) of
                  Inl e \<Rightarrow> Inl e
                | Inr child \<Rightarrow>
                    (case set_path_loop child parts v of
                       Inl e \<Rightarrow> Inl e
                     | Inr child' \<Rightarrow> setitem root1 part child'))))"

definition set_path_in_dict :: "obj \<Rightarrow> string \<Rightarrow> obj \<Rightarrow> string \<Rightarrow> error + obj" where
  "set_path_in_dict root path v sep =
     (case split path sep of
        Inl e \<Rightarrow> Inl e
      | Inr path_parts \<Rightarrow> set_path_loop root path_parts v)"

subsection \<open>The world outside the loader\<close>

text \<open>
  What \<open>urlparse\<close> returns: the fields of the URL that \<open>parse_uri\<close> reads.
\<close>

record url =
  url_scheme :: string
  url_netloc :: string
  url_path :: string
  url_query :: string

text \<open>
  The library functions and the environment of the process are parameters:
  \<^item> \<open>urlparse\<close> (\<open>None\<close>: it raises \<open>ValueError\<close>, as on \<open>//[\<close>);
  \<open>json.loads\<close> (\<open>None\<close>: \<open>JSONDecodeError\<close>); \<open>yaml.safe_load\<close> on the
  text of a file (\<open>None\<close>: \<open>YAMLError\<close>); \<open>int\<close> on a string (\<open>None\<close>:
  \<open>ValueError\<close>);
  \<^item> \<open>os.environ.items()\<close>;
  \<^item> \<open>open(p).read()\<close>: the text of the file, or the \<open>OSError\<close> raised
  (\<open>PermissionError\<close> is one of them) with \<open>str(exc)\<close> in \<open>exc_text\<close>;
  \<^item> the files that \<open>__init__\<close> finds on \<open>SEARCH_PATHS\<close>, in the order it loads
  them;
  \<^item> importing \<open>authentik.events.models\<close> and saving the event with the given message
  (\<open>None\<close>: both succeed; \<open>Some e\<close>: \<open>e\<close> is raised).
\<close>

record world =
  urlparse :: "string \<Rightarrow> url option"
  loads :: "string \<Rightarrow> obj option"
  safe_load :: "string \<Rightarrow> obj option"
  int_of_str :: "string \<Rightarrow> int option"
  environ :: "(string \<times> string) list"
  open_read :: "string \<Rightarrow> error + string"
  exc_text :: "string \<Rightarrow> string"
  found_files :: "string list"
  event_save :: "string \<Rightarrow> error option"

definition getenv :: "world \<Rightarrow> string \<Rightarrow> string option" where
  "getenv w name = map_of (environ w) name"

subsection \<open>Logging\<close>

text \<open>
  \<open>ConfigLoader.log\<close> prints one JSON object to \<open>stderr\<close>; the model keeps the
  lines printed, each with its level, its message and its keyword arguments (the logger
  name and the timestamp are left out). \<open>json.dumps\<close> raises \<open>TypeError\<close> on a
  value it cannot serialise: of the values the loader passes, a \<open>pathlib.Path\<close>.
\<close>

datatype logval = LStr string | LInt int | LPath string

type_synonym entry = "string \<times> string \<times> (string \<times> logval) list"

fun serializable :: "logval \<Rightarrow> bool" where
  "serializable (LPath p) = False"
| "serializable v = True"

definition log :: "entry list \<Rightarrow> string \<Rightarrow> string \<Rightarrow> (string \<times> logval) list \<Rightarrow> error + entry list" where
  "log err lvl message kwargs =
     (if list_all (\<lambda>(k, v). serializable v) kwargs
      then Inr (err @ [(lvl, message, kwargs)])
      else Inl TypeError)"

subsection \<open>The URI resolver\<close>

text \<open>
  \<open>str.strip()\<close> removes white space: among the code points below 256, the ones
  for which \<open>str.isspace\<close> holds.
\<close>

definition isspace :: "char \<Rightarrow> bool" where
  "isspace c = (of_char c \<in> {9, 10, 11, 12, 13, 28, 29, 30, 31, 32, 133, 160 :: nat})"

definition strip :: "string \<Rightarrow> string" where
  "strip s = rev (dropWhile isspace (rev (dropWhile isspace s)))"

definition parse_uri :: "world \<Rightarrow> entry list \<Rightarrow> string \<Rightarrow> error + (obj \<times> entry list)" where
  "parse_uri w err v =
     (case urlparse w v of
        None \<Rightarrow> Inl ValueError
      | Some u \<Rightarrow>
          (let parsed_value =
                 (if url_scheme u = ''env''
                  then (case getenv w (url_netloc u) of Some x \<Rightarrow> x | None \<Rightarrow> url_query u)
                  else v)
           in if url_scheme u = ''file'' then
                (case open_read w (url_path u) of
                   Inr text \<Rightarrow> Inr (PAttr (PStr (strip text)) URI (Some v), err)
                 | Inl e \<Rightarrow>
                     (case log err ''error''
                             (''Failed to read config value from '' @ url_path u @ '': ''
                                @ exc_text w (url_path u)) [] of
                        Inl e' \<Rightarrow> Inl e'
                      | Inr err' \<Rightarrow> Inr (PAttr (PStr (url_query u)) URI (Some v), err')))
              else Inr (PAttr (PStr parsed_value) URI (Some v), err)))"

subsection \<open>Merging\<close>

text \<open>
  The branch of \<open>update\<close> for a value that is no mapping: what is stored at the key.
\<close>

fun resolve :: "world \<Rightarrow> entry list \<Rightarrow> obj \<Rightarrow> error + (obj \<times> entry list)" where
  "resolve w err (PStr s) = parse_uri w err s"
| "resolve w err (PAttr (PStr s) st src) = parse_uri w err s"
| "resolve w err (PAttr v st src) = Inr (PAttr v st src, err)"
| "resolve w err v = (case Attr v UNSPECIFIED None of Inl e \<Rightarrow> Inl e | Inr a \<Rightarrow> Inr (a, err))"

text \<open>
  The loop of \<open>update\<close> over \<open>updatee.items()\<close>. \<open>root\<close> is mutated in place and
  returned.
\<close>

fun update_items :: "world \<Rightarrow> entry list \<Rightarrow> obj \<Rightarrow> (string \<times> obj) list \<Rightarrow> error + (obj \<times> entry list)" where
  "update_items w err root [] = Inr (root, err)"
| "update_items w err root ((key, PDict m) # rest) =
     (case dict_get root key (PDict []) of
        Inl e \<Rightarrow> Inl e
      | Inr sub \<Rightarrow>
          (case update_items w err sub m of
             Inl e \<Rightarrow> Inl e
           | Inr (sub', err') \<Rightarrow>
               (case setitem root key sub' of
                  Inl e \<Rightarrow> Inl e
                | Inr root' \<Rightarrow> update_items w err' root' rest)))"
| "update_items w err root ((key, v) # rest) =
     (case resolve w err v of
        Inl e \<Rightarrow> Inl e
      | Inr (a, err') \<Rightarrow>
          (case setitem root key a of
             Inl e \<Rightarrow> Inl e
           | Inr root' \<Rightarrow> update_items w err' root' rest))"

text \<open>\<open>ConfigLoader.update\<close>; only a dict has \<open>items\<close>.\<close>

fun update :: "world \<Rightarrow> entry list \<Rightarrow> obj \<Rightarrow> obj \<Rightarrow> error + (obj \<times> entry list)" where
  "update w err root (PDict m) = update_items w err root m"
| "update w err root x = Inl AttributeError"

subsection \<open>The builtins \<open>str\<close>, \<open>repr\<close>, \<open>str.lower\<close> and \<open>int\<close>\<close>

text \<open>Characters are the code points below 256.\<close>

definition digit_char :: "nat \<Rightarrow> char" where
  "digit_char d = char_of (48 + d)"

function show_nat :: "nat \<Rightarrow> string" where
  "show_nat n = (if n < 10 then [digit_char n] else show_nat (n div 10) @ [digit_char (n mod 10)])"
  by pat_completeness auto
termination
  by (relation "measure (\<lambda>n. n)") auto

definition show_int :: "int \<Rightarrow> string" where
  "show_int i = (if i < 0 then CHR ''-'' # show_nat (nat (- i)) else show_nat (nat i))"

definition hex_char :: "nat \<Rightarrow> char" where
  "hex_char d = (if d < 10 then char_of (48 + d) else char_of (87 + d))"

definition printable :: "char \<Rightarrow> bool" where
  "printable c = (let n = (of_char c :: nat) in (32 \<le> n \<and> n < 127) \<or> (161 \<le> n \<and> n \<noteq> 173))"

definition escape_char :: "char \<Rightarrow> char \<Rightarrow> string" where
  "escape_char q c =
     (if c = CHR 0x5C then [CHR 0x5C, CHR 0x5C]
      else if c = q then [CHR 0x5C, q]
      else if c = CHR 0x09 then [CHR 0x5C, CHR ''t'']
      else if c = CHR 0x0A then [CHR 0x5C, CHR ''n'']
      else if c = CHR 0x0D then [CHR 0x5C, CHR ''r'']
      else if \<not> printable c
        then [CHR 0x5C, CHR ''x'', hex_char (of_char c div 16), hex_char (of_char c mod 16)]
      else [c])"

definition repr_str :: "string \<Rightarrow> string" where
  "repr_str s =
     (let q = (if CHR 0x27 \<in> set s \<and> CHR 0x22 \<notin> set s then CHR 0x22 else CHR 0x27)
      in q # concat (map (escape_char q) s) @ [q])"

fun join :: "string \<Rightarrow> string list \<Rightarrow> string" where
  "join sep [] = []"
| "join sep [x] = x"
| "join sep (x # xs) = x @ sep @ join sep xs"

fun repr_source :: "source \<Rightarrow> string" where
  "repr_source UNSPECIFIED = ''<Source.UNSPECIFIED: '' @ repr_str ''unspecified'' @ ''>''"
| "repr_source ENV = ''<Source.ENV: '' @ repr_str ''env'' @ ''>''"
| "repr_source CONFIG_FILE = ''<Source.CONFIG_FILE: '' @ repr_str ''config_file'' @ ''>''"
| "repr_source URI = ''<Source.URI: '' @ repr_str ''uri'' @ ''>''"

fun py_repr :: "obj \<Rightarrow> string" where
  "py_repr PNone = ''None''"
| "py_repr (PBool b) = (if b then ''True'' else ''False'')"
| "py_repr (PInt n) = show_int n"
| "py_repr (PStr s) = repr_str s"
| "py_repr (PList xs) = ''['' @ join '', '' (map py_repr xs) @ '']''"
| "py_repr (PDict m) =
     ''{'' @ join '', '' (map (\<lambda>kv. repr_str (fst kv) @ '': '' @ py_repr (snd kv)) m) @ ''}''"
| "py_repr (PAttr v st src) =
     ''Attr(value='' @ py_repr v @ '', source_type='' @ repr_source st @ '', source=''
       @ (case src of None \<Rightarrow> ''None'' | Some x \<Rightarrow> repr_str x) @ '')''"
| "py_repr PUnset = ''<class '' @ repr_str ''authentik.lib.config.UNSET'' @ ''>''"

fun py_str :: "obj \<Rightarrow> string" where
  "py_str (PStr s) = s"
| "py_str x = py_repr x"

definition lower_char :: "char \<Rightarrow> char" where
  "lower_char c =
     (let n = (of_char c :: nat)
      in if (65 \<le> n \<and> n \<le> 90) \<or> (192 \<le> n \<and> n \<le> 222 \<and> n \<noteq> 215) then char_of (n + 32) else c)"

definition lower :: "string \<Rightarrow> string" where
  "lower s = map lower_char s"

text \<open>
  \<open>int(x)\<close>: \<open>ValueError\<close> for a string that is no integer literal,
  \<open>TypeError\<close> for an object that is neither a number nor a string.
\<close>

fun py_int :: "world \<Rightarrow> obj \<Rightarrow> error + int" where
  "py_int w (PInt n) = Inr n"
| "py_int w (PBool b) = Inr (if b then 1 else 0)"
| "py_int w (PStr s) = (case int_of_str w s of Some n \<Rightarrow> Inr n | None \<Rightarrow> Inl ValueError)"
| "py_int w x = Inl TypeError"

subsection \<open>ConfigLoader\<close>

text \<open>
  The state of a \<open>ConfigLoader\<close>: the dict \<open>self.__config\<close> and what it has printed
  to \<open>stderr\<close>. A method returns the exception raised or its result with the state
  after it.
\<close>

record loader =
  config :: obj
  stderr :: "entry list"

definition get :: "loader \<Rightarrow> string \<Rightarrow> obj \<Rightarrow> string \<Rightarrow> error + obj" where
  "get self path dflt sep =
     (case Attr dflt UNSPECIFIED None of
        Inl e \<Rightarrow> Inl e
      | Inr d \<Rightarrow>
          (case get_path_from_dict (config self) path sep d of
             Inl e \<Rightarrow> Inl e
           | Inr attr \<Rightarrow> dot_value attr))"

text \<open>\<open>ConfigLoader.set\<close>.\<close>

definition set_conf :: "loader \<Rightarrow> string \<Rightarrow> obj \<Rightarrow> string \<Rightarrow> error + loader" where
  "set_conf self path v sep =
     (case Attr v UNSPECIFIED None of
        Inl e \<Rightarrow> Inl e
      | Inr a \<Rightarrow>
          (case set_path_in_dict (config self) path a sep of
             Inl e \<Rightarrow> Inl e
           | Inr c \<Rightarrow> Inr (self\<lparr>config := c\<rparr>)))"

text \<open>
  \<open>get_int\<close>: the \<open>try\<close> covers the call of \<open>get\<close> and \<open>int\<close>, and only
  \<open>ValueError\<close> is caught. The text of the exception in the log line is abridged.
\<close>

definition get_int :: "world \<Rightarrow> loader \<Rightarrow> string \<Rightarrow> obj \<Rightarrow> error + (obj \<times> loader)" where
  "get_int w self path dflt =
     (case (case get self path dflt ''.'' of
              Inl e \<Rightarrow> Inl e
            | Inr v \<Rightarrow> py_int w v) of
        Inr n \<Rightarrow> Inr (PInt n, self)
      | Inl e \<Rightarrow>
          (if e = ValueError then
             (case log (stderr self) ''warning'' ''Failed to parse config as int''
                     [(''path'', LStr path), (''exc'', LStr ''invalid literal for int()'')] of
                Inl e' \<Rightarrow> Inl e'
              | Inr err' \<Rightarrow> Inr (dflt, self\<lparr>stderr := err'\<rparr>))
           else Inl e))"

definition get_bool :: "loader \<Rightarrow> string \<Rightarrow> obj \<Rightarrow> error + bool" where
  "get_bool self path dflt =
     (case get self path dflt ''.'' of
        Inl e \<Rightarrow> Inl e
      | Inr v \<Rightarrow> Inr (lower (py_str v) = ''true''))"



text \<open>
  The argument of \<open>update_from_file\<close>: a \<open>pathlib.Path\<close>, as the signature says
  and \<open>__init__\<close> passes, or a plain string, which \<open>open\<close> takes as well.
\<close>

datatype pathlike = PurePath string | StrPath string

fun path_str :: "pathlike \<Rightarrow> string" where
  "path_str (PurePath p) = p"
| "path_str (StrPath p) = p"

fun path_logval :: "pathlike \<Rightarrow> logval" where
  "path_logval (PurePath p) = LPath p"
| "path_logval (StrPath p) = LStr p"

definition update_from_file :: "world \<Rightarrow> loader \<Rightarrow> pathlike \<Rightarrow> error + loader" where
  "update_from_file w self path =
     (case (case open_read w (path_str path) of
              Inl e \<Rightarrow> Inl e
            | Inr text \<Rightarrow>
                (case (case safe_load w text of
                         None \<Rightarrow> Inl YAMLError
                       | Some doc \<Rightarrow>
                           (case update w (stderr self) (config self) doc of
                              Inl e \<Rightarrow> Inl e
                            | Inr (c, err') \<Rightarrow>
                                (case log err' ''debug'' ''Loaded config''
                                        [(''file'', LStr (path_str path))] of
                                   Inl e \<Rightarrow> Inl e
                                 | Inr err'' \<Rightarrow> Inr \<lparr>config = c, stderr = err''\<rparr>))) of
                   Inl e \<Rightarrow> (if e = YAMLError then Inl ImproperlyConfigured else Inl e)
                 | Inr self' \<Rightarrow> Inr self')) of
        Inl e \<Rightarrow>
          (if e = PermissionError then
             (case log (stderr self) ''warning'' ''Permission denied while reading file''
                     [(''path'', path_logval path), (''error'', LStr (exc_text w (path_str path)))] of
                Inl e' \<Rightarrow> Inl e'
              | Inr err' \<Rightarrow> Inr (self\<lparr>stderr := err'\<rparr>))
           else Inl e)
      | Inr self' \<Rightarrow> Inr self')"

subsection \<open>Environment variables\<close>

definition ENV_PREFIX :: string where
  "ENV_PREFIX = ''AUTHENTIK''"

definition startswith :: "string \<Rightarrow> string \<Rightarrow> bool" where
  "startswith s pre = (take (length pre) s = pre)"

text \<open>\<open>s.replace(old, new, 1)\<close> and \<open>s.replace(old, new)\<close> for a non-empty \<open>old\<close>.\<close>

fun replace_first :: "string \<Rightarrow> string \<Rightarrow> string \<Rightarrow> string" where
  "replace_first old new [] = []"
| "replace_first old new (c # cs) =
     (if take (length old) (c # cs) = old then new @ drop (length old) (c # cs)
      else c # replace_first old new cs)"

function replace_all :: "string \<Rightarrow> string \<Rightarrow> string \<Rightarrow> string" where
  "replace_all old new [] = []"
| "replace_all old new (c # cs) =
     (if old \<noteq> [] \<and> take (length old) (c # cs) = old
      then new @ replace_all old new (drop (length old) (c # cs))
      else c # replace_all old new cs)"
  by pat_completeness auto
termination
  by (relation "measure (\<lambda>(old, new, s). length s)") (auto simp: neq_Nil_conv)

definition relative_key :: "string \<Rightarrow> string" where
  "relative_key key = lower (replace_all ''__'' ''.'' (replace_first (ENV_PREFIX @ ''_'') [] key))"

text \<open>
  The loop of \<open>update_from_env\<close> over \<open>os.environ.items()\<close>: \<open>outer\<close> and
  \<open>idx\<close> after it.
\<close>

fun env_loop :: "world \<Rightarrow> (string \<times> string) list \<Rightarrow> obj \<Rightarrow> nat \<Rightarrow> error + (obj \<times> nat)" where
  "env_loop w [] outer idx = Inr (outer, idx)"
| "env_loop w ((key, raw) # rest) outer idx =
     (if \<not> startswith key ENV_PREFIX then env_loop w rest outer idx
      else
        (case Attr (case loads w raw of Some j \<Rightarrow> j | None \<Rightarrow> PStr raw) ENV
                (Some (relative_key key)) of
           Inl e \<Rightarrow> Inl e
         | Inr attr_value \<Rightarrow>
             (case set_path_in_dict outer (relative_key key) attr_value ''.'' of
                Inl e \<Rightarrow> Inl e
              | Inr outer' \<Rightarrow> env_loop w rest outer' (idx + 1))))"

definition update_from_env :: "world \<Rightarrow> loader \<Rightarrow> error + loader" where
  "update_from_env w self =
     (case env_loop w (environ w) (PDict []) 0 of
        Inl e \<Rightarrow> Inl e
      | Inr (outer, idx) \<Rightarrow>
          (if idx > 0 then
             (case log (stderr self) ''debug'' ''Loaded environment variables''
                     [(''count'', LInt (int idx))] of
                Inl e \<Rightarrow> Inl e
              | Inr err' \<Rightarrow>
                  (case update w err' (config self) outer of
                     Inl e \<Rightarrow> Inl e
                   | Inr (c, err'') \<Rightarrow> Inr \<lparr>config = c, stderr = err''\<rparr>))
           else Inr self))"

subsection \<open>Scoped patch\<close>


subsection \<open>Deprecations\<close>

definition DEPRECATIONS :: "(string \<times> string) list" where
  "DEPRECATIONS =
     [(''geoip'', ''events.context_processors.geoip''),
      (''redis.broker_url'', ''broker.url''),
      (''redis.broker_transport_options'', ''broker.transport_options''),
      (''redis.cache_timeout'', ''cache.timeout''),
      (''redis.cache_timeout_flows'', ''cache.timeout_flows''),
      (''redis.cache_timeout_policies'', ''cache.timeout_policies''),
      (''redis.cache_timeout_reputation'', ''cache.timeout_reputation'')]"

text \<open>
  \<open>_pop_deprecated_key(current_obj, dot_parts, index)\<close>, on the parts from
  \<open>index\<close> on: the value popped and \<open>current_obj\<close> after the call.
\<close>

fun pop_deprecated_key :: "obj \<Rightarrow> string list \<Rightarrow> error + (obj \<times> obj)" where
  "pop_deprecated_key current_obj [] = Inl IndexError"
| "pop_deprecated_key current_obj [dot_part] = pop current_obj dot_part"
| "pop_deprecated_key current_obj (dot_part # rest) =
     (case getitem current_obj dot_part of
        Inl e \<Rightarrow> Inl e
      | Inr child \<Rightarrow>
          (case pop_deprecated_key child rest of
             Inl e \<Rightarrow> Inl e
           | Inr (v, child') \<Rightarrow>
               (case setitem current_obj dot_part child' of
                  Inl e \<Rightarrow> Inl e
                | Inr current_obj' \<Rightarrow>
                    (if \<not> truthy child' then
                       (case pop current_obj' dot_part of
                          Inl e \<Rightarrow> Inl e
                        | Inr (x, current_obj'') \<Rightarrow> Inr (v, current_obj''))
                     else Inr (v, current_obj')))))"

definition deprecation_message :: "string \<Rightarrow> string \<Rightarrow> string" where
  "deprecation_message deprecation replacement =
     [CHR 0x27] @ deprecation @ [CHR 0x27] @ '' has been deprecated in favor of ''
       @ [CHR 0x27] @ replacement @ [CHR 0x27] @ ''! '' @ ''Please update your configuration.''"

text \<open>The loop of \<open>check_deprecations\<close> over a table of deprecations.\<close>

fun check_loop :: "world \<Rightarrow> loader \<Rightarrow> (string \<times> string) list \<Rightarrow> error + loader" where
  "check_loop w self [] = Inr self"
| "check_loop w self ((deprecation, replacement) # rest) =
     (case get self deprecation PUnset ''.'' of
        Inl e \<Rightarrow> Inl e
      | Inr present \<Rightarrow>
          (if present \<noteq> PUnset then
             (case log (stderr self) ''warning'' (deprecation_message deprecation replacement) [] of
                Inl e \<Rightarrow> Inl e
              | Inr err' \<Rightarrow>
                  (case event_save w (deprecation_message deprecation replacement) of
                     Some e \<Rightarrow>
                       (if e = ImportError then check_loop w (self\<lparr>stderr := err'\<rparr>) rest
                        else Inl e)
                   | None \<Rightarrow>
                       (case pop_deprecated_key (config self) (split_from ''.'' [] deprecation) of
                          Inl e \<Rightarrow> Inl e
                        | Inr (deprecated_attr, c) \<Rightarrow>
                            (case dot_value deprecated_attr of
                               Inl e \<Rightarrow> Inl e
                             | Inr x \<Rightarrow>
                                 (case set_conf \<lparr>config = c, stderr = err'\<rparr> replacement x ''.'' of
                                    Inl e \<Rightarrow> Inl e
                                  | Inr self' \<Rightarrow> check_loop w self' rest)))))
           else check_loop w self rest))"

definition check_deprecations :: "world \<Rightarrow> loader \<Rightarrow> error + loader" where
  "check_deprecations w self = check_loop w self DEPRECATIONS"

subsection \<open>Construction\<close>

fun load_files :: "world \<Rightarrow> loader \<Rightarrow> string list \<Rightarrow> error + loader" where
  "load_files w self [] = Inr self"
| "load_files w self (p # ps) =
     (case update_from_file w self (PurePath p) of
        Inl e \<Rightarrow> Inl e
      | Inr self' \<Rightarrow> load_files w self' ps)"

text \<open>
  \<open>ConfigLoader(**kwargs)\<close>: \<open>merge_sources\<close> is \<open>__init__\<close> up to the call of
  \<open>check_deprecations\<close>, which ends it.
\<close>

definition merge_sources :: "world \<Rightarrow> (string \<times> obj) list \<Rightarrow> error + loader" where
  "merge_sources w kwargs =
     (case load_files w \<lparr>config = PDict [], stderr = []\<rparr> (found_files w) of
        Inl e \<Rightarrow> Inl e
      | Inr self1 \<Rightarrow>
          (case update_from_env w self1 of
             Inl e \<Rightarrow> Inl e
           | Inr self2 \<Rightarrow>
               (case update w (stderr self2) (config self2) (PDict kwargs) of
                  Inl e \<Rightarrow> Inl e
                | Inr (c, err') \<Rightarrow> Inr \<lparr>config = c, stderr = err'\<rparr>)))"

definition init :: "world \<Rightarrow> (string \<times> obj) list \<Rightarrow> error + loader" where
  "init w kwargs =
     (case merge_sources w kwargs of
        Inl e \<Rightarrow> Inl e
      | Inr self \<Rightarrow> check_deprecations w self)"

subsection \<open>Notions used to state the properties\<close>

text \<open>
  The node that a list of keys addresses in a tree of dicts: every key but the last is
  looked up in a dict.
\<close>

fun node_at :: "obj \<Rightarrow> string list \<Rightarrow> obj option" where
  "node_at root [] = Some root"
| "node_at (PDict m) (p # ps) = (case map_of m p of Some c \<Rightarrow> node_at c ps | None \<Rightarrow> None)"
| "node_at root (p # ps) = None"

fun is_dict :: "obj \<Rightarrow> bool" where
  "is_dict (PDict m) = True"
| "is_dict x = False"

fun is_attr :: "obj \<Rightarrow> bool" where
  "is_attr (PAttr v st src) = True"
| "is_attr x = False"

fun is_str :: "obj \<Rightarrow> bool" where
  "is_str (PStr s) = True"
| "is_str x = False"

text \<open>
  The invariant of the configuration tree: every leaf is an \<open>Attr\<close> (whose value is no
  \<open>Attr\<close>), every other node is a dict.
\<close>

fun is_node :: "obj \<Rightarrow> bool" where
  "is_node (PDict m) = list_all (\<lambda>kv. is_node (snd kv)) m"
| "is_node (PAttr v st src) = (\<not> is_attr v)"
| "is_node x = False"

definition is_tree :: "obj \<Rightarrow> bool" where
  "is_tree root = (is_dict root \<and> is_node root)"

text \<open>A Python dict has every key once, at every level.\<close>

fun distinct_keys :: "obj \<Rightarrow> bool" where
  "distinct_keys (PDict m) = (distinct (map fst m) \<and> list_all (\<lambda>kv. distinct_keys (snd kv)) m)"
| "distinct_keys x = True"

text \<open>Two paths that part ways: neither is a prefix of the other.\<close>

fun divergent :: "string list \<Rightarrow> string list \<Rightarrow> bool" where
  "divergent (p # ps) (q # qs) = (p \<noteq> q \<or> divergent ps qs)"
| "divergent ps qs = False"

text \<open>A path that is a prefix of another one and shorter.\<close>

fun proper_prefix :: "string list \<Rightarrow> string list \<Rightarrow> bool" where
  "proper_prefix [] (q # qs) = True"
| "proper_prefix (p # ps) (q # qs) = (p = q \<and> proper_prefix ps qs)"
| "proper_prefix ps [] = False"


text \<open>
  A mapping does not reach the path: it has dicts along the path up to a key that it
  does not have.
\<close>

fun untouched :: "obj \<Rightarrow> string list \<Rightarrow> bool" where
  "untouched (PDict m) (p # ps) =
     (case map_of m p of None \<Rightarrow> True | Some c \<Rightarrow> is_dict c \<and> untouched c ps)"
| "untouched x ps = False"

text \<open>
  Two entries of a table of deprecations are apart when the old and the new path of the
  one part ways with the old and the new path of the other. In an independent table every
  entry occurs once, its new path parts ways with its old path, and any two entries are
  apart: no migration touches what another one reads or writes.
\<close>

fun apart :: "string \<times> string \<Rightarrow> string \<times> string \<Rightarrow> bool" where
  "apart (old', new') (old, new) =
     (divergent (split_from ''.'' [] old') (split_from ''.'' [] old)
      \<and> divergent (split_from ''.'' [] old') (split_from ''.'' [] new)
      \<and> divergent (split_from ''.'' [] new') (split_from ''.'' [] old)
      \<and> divergent (split_from ''.'' [] new') (split_from ''.'' [] new))"

definition independent :: "(string \<times> string) list \<Rightarrow> bool" where
  "independent tbl =
     (distinct tbl
      \<and> list_all (\<lambda>e. divergent (split_from ''.'' [] (snd e)) (split_from ''.'' [] (fst e))
                      \<and> list_all (\<lambda>e'. e' = e \<or> apart e' e) tbl) tbl)"

subsection \<open>Example worlds\<close>

text \<open>
  A world in which no string is a URL with a scheme, JSON or YAML, no file can be
  opened for lack of permission and the event model cannot be imported.
\<close>

definition closed_world :: world where
  "closed_world =
     \<lparr>urlparse = (\<lambda>v. Some \<lparr>url_scheme = [], url_netloc = [], url_path = v, url_query = []\<rparr>),
      loads = (\<lambda>s. None),
      safe_load = (\<lambda>s. None),
      int_of_str = (\<lambda>s. None),
      environ = [(''AUTHENTIK_POSTGRESQL__HOST'', ''localhost'')],
      open_read = (\<lambda>p. Inl PermissionError),
      exc_text = (\<lambda>p. ''Permission denied''),
      found_files = [],
      event_save = (\<lambda>m. Some ImportError)\<rparr>"

text \<open>
  A world with three environment variables, two of them with the prefix, in which
  \<open>6379\<close> is JSON, no string is a URL with a scheme and the event is saved.
\<close>

definition sample_world :: world where
  "sample_world =
     \<lparr>urlparse = (\<lambda>v. Some \<lparr>url_scheme = [], url_netloc = [], url_path = v, url_query = []\<rparr>),
      loads = (\<lambda>s. if s = ''6379'' then Some (PInt 6379) else None),
      safe_load = (\<lambda>s. None),
      int_of_str = (\<lambda>s. None),
      environ = [(''AUTHENTIK_REDIS__PORT'', ''6379''), (''PATH'', ''/bin''),
                 (''AUTHENTIK_REDIS__HOST'', ''cache'')],
      open_read = (\<lambda>p. Inl OSError),
      exc_text = (\<lambda>p. ''No such file or directory''),
      found_files = [],
      event_save = (\<lambda>m. None)\<rparr>"


section \<open>Properties\<close>

subsection \<open>Reading a path\<close>

text \<open>A path that addresses a node is read as that node.\<close>

lemma node_at_get_path_loop:
  "node_at root parts = Some x \<Longrightarrow> get_path_loop root parts d = Inr x"
proof (induction root parts arbitrary: x rule: node_at.induct)
  case (2 m p ps)
  then show ?case by (cases "map_of m p") auto
qed auto

text \<open>
  C4. The claim: \<open>get_path_from_dict\<close> is total and returns the default as soon as a
  component of the path is absent or the current node is not a mapping. The docstring says
  the same (if at any point a dict does not exist, return default). On the tree
  \<open>{"a": Attr("x")}\<close> and the path \<open>a.b\<close> the walk arrives at the \<open>Attr\<close>, which
  is true as a condition, and \<open>"b" in root\<close> raises \<open>TypeError\<close>: no default is
  returned.
\<close>

theorem get_path_from_dict_raises_at_leaf:
  "get_path_from_dict (PDict [(''a'', PAttr (PStr ''x'') UNSPECIFIED None)]) ''a.b'' ''.'' PNone
     = Inl TypeError"
  by (simp add: get_path_from_dict_def split_def)

subsection \<open>Typed getters\<close>

text \<open>
  C3. The claim: \<open>get_int\<close> never raises, whatever the type of the stored value. With
  \<open>None\<close> stored at \<open>x\<close> (the YAML document \<open>x: null\<close>), \<open>int(None)\<close> raises
  \<open>TypeError\<close>, which the handler for \<open>ValueError\<close> lets through, in every world.
\<close>

theorem get_int_raises_on_none:
  "get_int w \<lparr>config = PDict [(''x'', PAttr PNone UNSPECIFIED None)], stderr = []\<rparr> ''x'' (PInt 0)
     = Inl TypeError"
  by (simp add: get_int_def get_def get_path_from_dict_def split_def)

subsection \<open>Loading a file\<close>

text \<open>
  C7. The claim: when opening the file fails with a permission error,
  \<open>update_from_file\<close> logs a warning and returns normally. Called with a
  \<open>pathlib.Path\<close>, the handler passes the path itself to \<open>log\<close>, whose
  \<open>json.dumps\<close> raises \<open>TypeError\<close> on it: the call raises instead of returning.
\<close>

theorem update_from_file_permission_error_raises:
  "open_read w p = Inl PermissionError \<Longrightarrow> update_from_file w self (PurePath p) = Inl TypeError"
  by (simp add: update_from_file_def log_def)

theorem update_from_file_permission_error_raises_witness:
  "open_read closed_world ''/etc/authentik/config.yml'' = Inl PermissionError
   \<and> update_from_file closed_world \<lparr>config = PDict [], stderr = []\<rparr>
         (PurePath ''/etc/authentik/config.yml'') = Inl TypeError"
  using update_from_file_permission_error_raises
          [of closed_world "''/etc/authentik/config.yml''" "\<lparr>config = PDict [], stderr = []\<rparr>"]
  by (simp add: closed_world_def)

subsection \<open>\<open>get\<close> on a mapping\<close>

text \<open>
  C9. Where the path addresses a dict of the tree, \<open>get\<close> raises: the walk returns the
  dict, and \<open>attr.value\<close> on it is an \<open>AttributeError\<close> (unless the default is an
  \<open>Attr\<close>, which \<open>Attr(default)\<close> refuses first with \<open>RuntimeError\<close>). Neither the
  sub-tree nor the default is returned.
\<close>

theorem get_raises_on_mapping:
  assumes "sep \<noteq> []"
    and "node_at (config self) (split_from sep [] path) = Some (PDict m)"
  shows "get self path dflt sep = Inl (if is_attr dflt then RuntimeError else AttributeError)"
  using assms(1) node_at_get_path_loop[OF assms(2)]
  by (cases dflt) (simp_all add: get_def get_path_from_dict_def split_def)

theorem get_raises_on_mapping_witness:
  "''.'' \<noteq> []
   \<and> node_at (config \<lparr>config = PDict [(''a'', PDict [(''b'', PAttr (PInt 1) UNSPECIFIED None)])],
                       stderr = []\<rparr>) (split_from ''.'' [] ''a'')
       = Some (PDict [(''b'', PAttr (PInt 1) UNSPECIFIED None)])
   \<and> get \<lparr>config = PDict [(''a'', PDict [(''b'', PAttr (PInt 1) UNSPECIFIED None)])], stderr = []\<rparr>
        ''a'' PNone ''.'' = Inl AttributeError"
proof -
  have h: "node_at (config \<lparr>config = PDict [(''a'', PDict [(''b'', PAttr (PInt 1) UNSPECIFIED None)])],
                       stderr = []\<rparr>) (split_from ''.'' [] ''a'')
       = Some (PDict [(''b'', PAttr (PInt 1) UNSPECIFIED None)])"
    by simp
  have s: "''.'' \<noteq> []" by simp
  show ?thesis using get_raises_on_mapping[OF s h, of PNone] h by simp
qed

subsection \<open>\<open>get_bool\<close>\<close>

lemma lower_True: "lower ''True'' = ''true''"
  by code_simp

lemma lower_False: "lower ''False'' \<noteq> ''true''"
  by code_simp

lemma lower_TRUE: "lower ''TRUE'' = ''true''"
  by code_simp

lemma digit_lower: "d < 10 \<Longrightarrow> lower_char (digit_char d) \<noteq> CHR ''t''"
proof
  assume d: "d < 10" and e: "lower_char (digit_char d) = CHR ''t''"
  have o: "of_char (digit_char d) = 48 + d" using d by (simp add: digit_char_def)
  then have "lower_char (digit_char d) = digit_char d" using d by (simp add: lower_char_def)
  with e have "of_char (digit_char d) = (of_char (CHR ''t'') :: nat)" by simp
  with o d show False by simp
qed

lemma hd_show_nat: "show_nat n \<noteq> [] \<and> lower_char (hd (show_nat n)) \<noteq> CHR ''t''"
proof (induction n rule: show_nat.induct)
  case (1 n)
  show ?case
  proof (cases "n < 10")
    case True
    then show ?thesis by (subst (1 2) show_nat.simps) (simp add: digit_lower)
  next
    case False
    with 1 show ?thesis by (subst (1 2) show_nat.simps) simp
  qed
qed

lemma lower_show_int: "lower (show_int i) \<noteq> ''true''"
proof -
  have "lower (show_nat n) \<noteq> ''true''" for n
    using hd_show_nat[of n] by (cases "show_nat n") (auto simp: lower_def)
  then show ?thesis by (auto simp: show_int_def lower_def lower_char_def)
qed

text \<open>
  The string form of an object is \<open>true\<close> up to case for the boolean \<open>True\<close> and for
  the strings that are, and for nothing else.
\<close>

lemma lower_py_str_true:
  "lower (py_str v) = ''true'' \<longleftrightarrow> v = PBool True \<or> (\<exists>s. v = PStr s \<and> lower s = ''true'')"
proof (cases v)
  case (PBool b)
  then show ?thesis by (cases b) (simp_all add: lower_True lower_False)
next
  case (PInt n)
  then show ?thesis using lower_show_int[of n] by simp
qed (simp_all add: lower_def lower_char_def repr_str_def)

text \<open>
  C2, as the code has it. Whatever \<open>get\<close> returns for the path, \<open>get_bool\<close> is
  \<open>True\<close> exactly when that value is the boolean \<open>True\<close> or a string equal to
  \<open>true\<close> up to case; for every other value (\<open>None\<close>, \<open>False\<close>, an integer, a list,
  a dict, any other string) it is \<open>False\<close>.
\<close>

theorem get_bool_true_iff:
  assumes "get self path dflt ''.'' = Inr v"
  shows "get_bool self path dflt = Inr (v = PBool True \<or> (\<exists>s. v = PStr s \<and> lower s = ''true''))"
  using assms by (simp add: get_bool_def lower_py_str_true)

theorem get_bool_true_iff_witness:
  "get \<lparr>config = PDict [(''debug'', PAttr (PStr ''TRUE'') URI (Some ''TRUE''))], stderr = []\<rparr>
       ''debug'' (PBool False) ''.'' = Inr (PStr ''TRUE'')
   \<and> get_bool \<lparr>config = PDict [(''debug'', PAttr (PStr ''TRUE'') URI (Some ''TRUE''))], stderr = []\<rparr>
       ''debug'' (PBool False) = Inr True"
proof -
  have h: "get \<lparr>config = PDict [(''debug'', PAttr (PStr ''TRUE'') URI (Some ''TRUE''))], stderr = []\<rparr>
       ''debug'' (PBool False) ''.'' = Inr (PStr ''TRUE'')"
    by (simp add: get_def get_path_from_dict_def split_def)
  show ?thesis using get_bool_true_iff[OF h] h by (simp add: lower_TRUE)
qed

text \<open>
  C2 as stated has every value that is not a string give \<open>False\<close>. The boolean
  \<open>True\<close> (the YAML document \<open>x: true\<close>) is no string and gives \<open>True\<close>.
\<close>

theorem get_bool_non_string_true:
  "\<not> is_str (PBool True)
   \<and> get_bool \<lparr>config = PDict [(''x'', PAttr (PBool True) UNSPECIFIED None)], stderr = []\<rparr>
        ''x'' (PBool False) = Inr True"
  by (simp add: get_bool_def get_def get_path_from_dict_def split_def lower_True)

subsection \<open>Writing a path\<close>

lemma get_path_loop_dict:
  "get_path_loop (PDict m) (p # ps) d =
     (case map_of m p of Some c \<Rightarrow> get_path_loop c ps d | None \<Rightarrow> Inr d)"
  by (cases "map_of m p") auto

lemma set_path_loop_dict:
  "set_path_loop (PDict m) (p # q # qs) v =
     (case set_path_loop (case map_of m p of Some c \<Rightarrow> c | None \<Rightarrow> PDict []) (q # qs) v of
        Inl e \<Rightarrow> Inl e
      | Inr c' \<Rightarrow> Inr (PDict (AList.update p c' m)))"
  by (cases "map_of m p") (auto split: sum.splits simp: update_conv')

lemma set_path_loop_non_dict:
  "\<not> is_dict root \<Longrightarrow> isl (set_path_loop root parts v)"
proof (cases parts)
  case (Cons p ps)
  assume "\<not> is_dict root"
  then show ?thesis using Cons
    by (cases ps; cases root) (auto split: sum.splits if_splits)
qed simp

lemma set_path_loop_node_at:
  "set_path_loop root parts a = Inr root' \<Longrightarrow> node_at root' parts = Some a"
proof (induction parts arbitrary: root root')
  case (Cons p ps)
  show ?case
  proof (cases ps)
    case Nil
    with Cons.prems show ?thesis by (cases root) (auto simp: update_conv')
  next
    case (Cons q qs)
    show ?thesis
    proof (cases root)
      case (PDict m)
      with Cons.prems Cons Cons.IH show ?thesis
        by (auto simp: set_path_loop_dict update_conv' split: sum.splits simp del: set_path_loop.simps)
    qed (use Cons.prems set_path_loop_non_dict[of root "p # ps" a] in auto)
  qed
qed simp



lemma get_path_loop_result:
  "is_node root \<Longrightarrow> get_path_loop root parts d = Inr x \<Longrightarrow> x = d \<or> is_node x"
proof (induction parts arbitrary: root)
  case (Cons p ps)
  show ?case
  proof (cases root)
    case (PDict m)
    show ?thesis
    proof (cases "map_of m p")
      case None
      with Cons.prems PDict show ?thesis by (simp add: get_path_loop_dict del: get_path_loop.simps)
    next
      case (Some c)
      then have "(p, c) \<in> set m" by (rule map_of_SomeD)
      with Cons.prems(1) PDict have "is_node c" by (auto simp: list_all_iff)
      with Cons.IH[of c] Cons.prems(2) PDict Some show ?thesis
        by (simp add: get_path_loop_dict del: get_path_loop.simps)
    qed
  qed (use Cons.prems in auto)
qed simp

lemma get_defined_set_ok:
  "is_node root \<Longrightarrow> is_dict root \<Longrightarrow> is_attr d \<Longrightarrow> get_path_loop root parts d = Inr x
   \<Longrightarrow> is_attr x \<Longrightarrow> parts \<noteq> [] \<Longrightarrow> \<not> isl (set_path_loop root parts a)"
proof (induction parts arbitrary: root x)
  case (Cons p ps)
  from Cons.prems(2) obtain m where m: "root = PDict m" by (cases root) auto
  show ?case
  proof (cases ps)
    case Nil
    then show ?thesis using m by simp
  next
    case ps: (Cons q qs)
    show ?thesis
    proof (cases "map_of m p")
      case None
      have "\<not> isl (set_path_loop (PDict []) ps a)"
        using Cons.IH[of "PDict []" d] Cons.prems(3) ps by simp
      with None m ps show ?thesis
        by (auto simp: set_path_loop_dict split: sum.splits simp del: set_path_loop.simps)
    next
      case (Some c)
      then have "(p, c) \<in> set m" by (rule map_of_SomeD)
      with Cons.prems(1) m have nc: "is_node c" by (auto simp: list_all_iff)
      have g: "get_path_loop c ps d = Inr x"
        using Cons.prems(4) m Some by (simp add: get_path_loop_dict del: get_path_loop.simps)
      have dc: "is_dict c"
      proof (cases c)
        case (PAttr v st src)
        with g ps show ?thesis by simp
      qed (use nc in auto)
      have "\<not> isl (set_path_loop c ps a)"
        using Cons.IH[OF nc dc Cons.prems(3) g Cons.prems(5)] ps by simp
      with Some m ps show ?thesis
        by (auto simp: set_path_loop_dict split: sum.splits simp del: set_path_loop.simps)
    qed
  qed
qed simp


subsection \<open>Scoped patch\<close>

lemma split_from_nonempty: "split_from sep acc s \<noteq> []"
  by (induction sep acc s rule: split_from.induct) auto


lemma set_conf_unfold:
  "\<not> is_attr v \<Longrightarrow> set_conf s path v ''.'' =
     (case set_path_loop (config s) (split_from ''.'' [] path) (PAttr v UNSPECIFIED None) of
        Inl e \<Rightarrow> Inl e | Inr c \<Rightarrow> Inr (s\<lparr>config := c\<rparr>))"
  by (cases v) (simp_all add: set_conf_def set_path_in_dict_def split_def)

lemma get_unfold:
  "\<not> is_attr dflt \<Longrightarrow> get s path dflt ''.'' =
     (case get_path_loop (config s) (split_from ''.'' [] path) (PAttr dflt UNSPECIFIED None) of
        Inl e \<Rightarrow> Inl e | Inr x \<Rightarrow> dot_value x)"
  by (cases dflt) (simp_all add: get_def get_path_from_dict_def split_def)


text \<open>
  In a well-formed tree, where \<open>get\<close> is defined for the path, \<open>set\<close> on the path
  does not raise and the value read is no \<open>Attr\<close>: \<open>patch\<close> gets as far as its body.
\<close>

lemma patch_enters:
  assumes tree: "is_tree (config self)"
    and plain: "\<not> is_attr v"
    and defined: "get self path PNone ''.'' = Inr original"
  shows "(\<exists>self1. set_conf self path v ''.'' = Inr self1) \<and> \<not> is_attr original"
proof -
  let ?parts = "split_from ''.'' [] path"
  let ?d = "PAttr PNone UNSPECIFIED None"
  from defined obtain x where x: "get_path_loop (config self) ?parts ?d = Inr x"
    and xv: "dot_value x = Inr original"
    by (auto simp: get_unfold split: sum.splits)
  from xv have ax: "is_attr x" by (cases x) auto
  from tree have n: "is_node (config self)" and dd: "is_dict (config self)"
    by (auto simp: is_tree_def)
  have no: "\<not> is_attr original"
    using get_path_loop_result[OF n x] xv by (cases x) auto
  have "\<not> isl (set_path_loop (config self) ?parts (PAttr v UNSPECIFIED None))"
    using get_defined_set_ok[OF n dd _ x ax split_from_nonempty] by simp
  then obtain c1 where "set_path_loop (config self) ?parts (PAttr v UNSPECIFIED None) = Inr c1"
    by (cases "set_path_loop (config self) ?parts (PAttr v UNSPECIFIED None)") auto
  then show ?thesis using no by (simp add: set_conf_unfold[OF plain])
qed







subsection \<open>Merging\<close>

lemma update_items_leaf_step:
  "\<not> is_dict v \<Longrightarrow> update_items w err root ((key, v) # rest) =
     (case resolve w err v of
        Inl e \<Rightarrow> Inl e
      | Inr (a, err') \<Rightarrow>
          (case setitem root key a of
             Inl e \<Rightarrow> Inl e
           | Inr root' \<Rightarrow> update_items w err' root' rest))"
  by (cases v) simp_all

lemma update_items_frame:
  "update_items w err (PDict r) items = Inr (root', err')
   \<Longrightarrow> \<exists>r'. root' = PDict r' \<and> (\<forall>k. k \<notin> fst ` set items \<longrightarrow> map_of r' k = map_of r k)"
proof (induction items arbitrary: r err)
  case (Cons kv rest)
  obtain key v where kv: "kv = (key, v)" by (cases kv)
  show ?case
  proof (cases "is_dict v")
    case True
    then obtain m where m: "v = PDict m" by (cases v) auto
    from Cons.prems kv m obtain x e1 where
      "update_items w e1 (PDict (AList.update key x r)) rest = Inr (root', err')"
      by (auto split: sum.splits)
    from Cons.IH[OF this] show ?thesis using kv by (auto simp: update_conv')
  next
    case False
    from Cons.prems kv obtain x e1 where
      "update_items w e1 (PDict (AList.update key x r)) rest = Inr (root', err')"
      by (auto simp: update_items_leaf_step[OF False] split: sum.splits simp del: update_items.simps)
    from Cons.IH[OF this] show ?thesis using kv by (auto simp: update_conv')
  qed
qed auto

lemma update_items_root_dict:
  "update_items w err root (kv # rest) = Inr (root', err') \<Longrightarrow> is_dict root"
proof -
  assume a: "update_items w err root (kv # rest) = Inr (root', err')"
  obtain key v where kv: "kv = (key, v)" by (cases kv)
  show ?thesis
  proof (cases "is_dict v")
    case True
    then obtain m where m: "v = PDict m" by (cases v) auto
    with a kv show ?thesis by (cases root) (auto split: sum.splits)
  next
    case False
    with a kv show ?thesis
      by (cases root) (auto simp: update_items_leaf_step[OF False] split: sum.splits simp del: update_items.simps)
  qed
qed

lemma resolve_log_indep:
  "resolve w e v = Inr (a, e') \<Longrightarrow> \<exists>e''. resolve w e0 v = Inr (a, e'')"
proof -
  have p: "parse_uri w e s = Inr (a, e') \<Longrightarrow> \<exists>e''. parse_uri w e0 s = Inr (a, e'')" for s
    by (auto simp: parse_uri_def log_def Let_def split: option.splits sum.splits if_splits)
  assume r: "resolve w e v = Inr (a, e')"
  show ?thesis
  proof (cases v)
    case (PAttr x st src)
    with r p show ?thesis by (cases x) auto
  qed (use r p in auto)
qed


lemma update_items_stores_leaf:
  "update_items w err root m = Inr (root', err') \<Longrightarrow> distinct_keys (PDict m)
   \<Longrightarrow> node_at (PDict m) parts = Some v \<Longrightarrow> \<not> is_dict v \<Longrightarrow> parts \<noteq> []
   \<Longrightarrow> \<exists>a e'. resolve w [] v = Inr (a, e') \<and> node_at root' parts = Some a"
proof (induction "size (PDict m)" arbitrary: m err root root' err' parts rule: less_induct)
  case less
  from less.prems(5) obtain p ps where parts: "parts = p # ps" by (cases parts) auto
  from less.prems(3) parts obtain kv rest where m: "m = kv # rest" by (cases m) auto
  obtain key v0 where kv: "kv = (key, v0)" by (cases kv)
  from less.prems(1) m have "is_dict root" by (auto dest: update_items_root_dict)
  then obtain r where r: "root = PDict r" by (cases root) auto
  show ?case
  proof (cases "key = p")
    case False
    have n: "node_at (PDict rest) parts = Some v"
      using less.prems(3) False m kv parts by simp
    have d: "distinct_keys (PDict rest)" using less.prems(2) m by simp
    from less.prems(1) m kv r obtain x e1 where
      u: "update_items w e1 (PDict (AList.update key x r)) rest = Inr (root', err')"
      by (cases "is_dict v0"; cases v0)
         (auto split: sum.splits)
    from less.hyps[OF _ u d n less.prems(4,5)] m show ?thesis by simp
  next
    case True
    have notin: "p \<notin> fst ` set rest" using less.prems(2) m kv True by auto
    show ?thesis
    proof (cases "is_dict v0")
      case False
      with less.prems(3) m kv True parts have ps: "ps = []" and v0: "v0 = v"
        by (cases v0; cases ps; auto)+
      from less.prems(1) m kv r False obtain a e1 where
        res: "resolve w err v0 = Inr (a, e1)"
        and u: "update_items w e1 (PDict (AList.update key a r)) rest = Inr (root', err')"
        by (auto simp: update_items_leaf_step[OF False] split: sum.splits simp del: update_items.simps)
      from update_items_frame[OF u] notin True obtain r' where
        "root' = PDict r'" "map_of r' p = Some a" by (auto simp: update_conv')
      with resolve_log_indep[OF res, of "[]"] ps v0 parts show ?thesis by auto
    next
      case isd: True
      then obtain m0 where m0: "v0 = PDict m0" by (cases v0) auto
      from less.prems(3) m kv True parts m0 less.prems(4) have ps: "ps \<noteq> []" and n: "node_at (PDict m0) ps = Some v"
        by (cases ps; auto)+
      from less.prems(1) m kv r m0 obtain sub sub' e1 where
        s: "update_items w err sub m0 = Inr (sub', e1)"
        and u: "update_items w e1 (PDict (AList.update key sub' r)) rest = Inr (root', err')"
        by (auto split: sum.splits)
      have d: "distinct_keys (PDict m0)" using less.prems(2) m kv m0 by simp
      have sz: "size (PDict m0) < size (PDict m)" using m kv m0 by simp
      from less.hyps[OF sz s d n less.prems(4) ps] obtain a e' where
        a: "resolve w [] v = Inr (a, e')" "node_at sub' ps = Some a" by blast
      from update_items_frame[OF u] notin True obtain r' where
        "root' = PDict r'" "map_of r' p = Some sub'" by (auto simp: update_conv')
      with a parts show ?thesis by auto
    qed
  qed
qed


lemma update_items_untouched:
  "update_items w err root m = Inr (root', err') \<Longrightarrow> distinct_keys (PDict m)
   \<Longrightarrow> untouched (PDict m) parts \<Longrightarrow> node_at root' parts = node_at root parts"
proof (induction "size (PDict m)" arbitrary: m err root root' err' parts rule: less_induct)
  case less
  from less.prems(3) obtain p ps where parts: "parts = p # ps" by (cases parts) auto
  show ?case
  proof (cases m)
    case Nil
    with less.prems(1) show ?thesis by simp
  next
    case (Cons kv rest)
    note m = Cons
    obtain key v0 where kv: "kv = (key, v0)" by (cases kv)
    from less.prems(1) m have "is_dict root" by (auto dest: update_items_root_dict)
    then obtain r where r: "root = PDict r" by (cases root) auto
    have d: "distinct_keys (PDict rest)" using less.prems(2) m by simp
    show ?thesis
    proof (cases "key = p")
      case False
      have un: "untouched (PDict rest) parts"
        using less.prems(3) False m kv parts by simp
      from less.prems(1) m kv r obtain x e1 where
        u: "update_items w e1 (PDict (AList.update key x r)) rest = Inr (root', err')"
        by (cases "is_dict v0"; cases v0) (auto split: sum.splits)
      from less.hyps[OF _ u d un] m False r parts show ?thesis by (simp add: update_conv')
    next
      case True
      have notin: "p \<notin> fst ` set rest" using less.prems(2) m kv True by auto
      from less.prems(3) m kv True parts obtain m0 where m0: "v0 = PDict m0"
        and un: "untouched (PDict m0) ps"
        by (cases v0) auto
      from un obtain q qs where ps: "ps = q # qs" by (cases ps) auto
      let ?sub = "case map_of r p of Some c \<Rightarrow> c | None \<Rightarrow> PDict []"
      from less.prems(1) m kv r m0 True obtain sub' e1 where
        s: "update_items w err ?sub m0 = Inr (sub', e1)"
        and u: "update_items w e1 (PDict (AList.update key sub' r)) rest = Inr (root', err')"
        by (auto split: sum.splits)
      have d0: "distinct_keys (PDict m0)" using less.prems(2) m kv m0 by simp
      have sz: "size (PDict m0) < size (PDict m)" using m kv m0 by simp
      have ih: "node_at sub' ps = node_at ?sub ps" by (rule less.hyps[OF sz s d0 un])
      from update_items_frame[OF u] notin True obtain r' where
        "root' = PDict r'" "map_of r' p = Some sub'" by (auto simp: update_conv')
      with ih parts r ps show ?thesis by (cases "map_of r p") auto
    qed
  qed
qed

text \<open>
  C5. Two mappings are merged in order into a tree, the later one a dict with every key
  once at every level. Where the later mapping has a value that is no mapping, the tree
  then holds that value as \<open>update\<close> resolves it, whatever the earlier mapping had
  there. Where the later mapping does not reach a path (it has mappings along the path up
  to a key that it lacks), the tree holds at that path what it held before the later
  merge.
\<close>

theorem merge_precedence:
  assumes "update w err0 root (PDict A) = Inr (r1, err1)"
    and "update w err1 r1 (PDict B) = Inr (r2, err2)"
    and "distinct_keys (PDict B)"
  shows "(\<forall>parts v. parts \<noteq> [] \<and> node_at (PDict B) parts = Some v \<and> \<not> is_dict v
            \<longrightarrow> (\<exists>a e. resolve w [] v = Inr (a, e) \<and> node_at r2 parts = Some a))
       \<and> (\<forall>parts. untouched (PDict B) parts \<longrightarrow> node_at r2 parts = node_at r1 parts)"
  using assms(2,3) update_items_stores_leaf[of w err1 r1 B r2 err2]
    update_items_untouched[of w err1 r1 B r2 err2]
  by auto

theorem merge_precedence_witness:
  "node_at (PDict [(''log_level'', PAttr (PStr ''debug'') URI (Some ''debug'')),
                   (''listen'', PDict [(''http'', PAttr (PInt 9000) UNSPECIFIED None),
                                       (''metrics'', PAttr (PInt 9300) UNSPECIFIED None)])])
      [''log_level''] = Some (PAttr (PStr ''debug'') URI (Some ''debug''))
   \<and> node_at (PDict [(''log_level'', PAttr (PStr ''debug'') URI (Some ''debug'')),
                   (''listen'', PDict [(''http'', PAttr (PInt 9000) UNSPECIFIED None),
                                       (''metrics'', PAttr (PInt 9300) UNSPECIFIED None)])])
      [''listen'', ''http''] = Some (PAttr (PInt 9000) UNSPECIFIED None)"
proof -
  let ?A = "[(''log_level'', PStr ''info''), (''listen'', PDict [(''http'', PInt 9000)])]"
  let ?B = "[(''log_level'', PStr ''debug''), (''listen'', PDict [(''metrics'', PInt 9300)])]"
  let ?r1 = "PDict [(''log_level'', PAttr (PStr ''info'') URI (Some ''info'')),
                    (''listen'', PDict [(''http'', PAttr (PInt 9000) UNSPECIFIED None)])]"
  let ?r2 = "PDict [(''log_level'', PAttr (PStr ''debug'') URI (Some ''debug'')),
                   (''listen'', PDict [(''http'', PAttr (PInt 9000) UNSPECIFIED None),
                                       (''metrics'', PAttr (PInt 9300) UNSPECIFIED None)])]"
  have u1: "update closed_world [] (PDict []) (PDict ?A) = Inr (?r1, [])"
    by (simp add: parse_uri_def closed_world_def)
  have u2: "update closed_world [] ?r1 (PDict ?B) = Inr (?r2, [])"
    by (simp add: parse_uri_def closed_world_def)
  have d: "distinct_keys (PDict ?B)" by simp
  have l: "[''log_level''] \<noteq> [] \<and> node_at (PDict ?B) [''log_level''] = Some (PStr ''debug'')
             \<and> \<not> is_dict (PStr ''debug'')" by simp
  have f: "untouched (PDict ?B) [''listen'', ''http'']" by simp
  have r: "resolve closed_world [] (PStr ''debug'') = Inr (PAttr (PStr ''debug'') URI (Some ''debug''), [])"
    by (simp add: parse_uri_def closed_world_def)
  from merge_precedence[OF u1 u2 d] l f r show ?thesis by fastforce
qed

subsection \<open>Environment variables\<close>

lemma set_update_subset: "set (AList.update k v al) \<subseteq> insert (k, v) (set al)"
  by (induction al) auto

lemma set_path_frame:
  "set_path_loop root q a = Inr root' \<Longrightarrow> divergent q parts
   \<Longrightarrow> node_at root' parts = node_at root parts"
proof (induction q arbitrary: root root' parts)
  case (Cons l qs)
  from Cons.prems(2) obtain p ps where parts: "parts = p # ps" by (cases parts) auto
  have "is_dict root"
    using Cons.prems(1) set_path_loop_non_dict[of root "l # qs" a] by auto
  then obtain m where m: "root = PDict m" by (cases root) auto
  show ?case
  proof (cases qs)
    case Nil
    with Cons.prems m parts show ?thesis by (auto simp: update_conv')
  next
    case qs: (Cons q' qs')
    let ?child = "case map_of m l of Some c \<Rightarrow> c | None \<Rightarrow> PDict []"
    from Cons.prems(1) m qs obtain c' where
      c: "set_path_loop ?child qs a = Inr c'" and r: "root' = PDict (AList.update l c' m)"
      by (auto simp: set_path_loop_dict split: sum.splits simp del: set_path_loop.simps)
    show ?thesis
    proof (cases "l = p")
      case False
      with r m parts show ?thesis by (simp add: update_conv')
    next
      case True
      with Cons.prems(2) parts have dv: "divergent qs ps" by simp
      then obtain x xs where ps: "ps = x # xs" by (cases qs; cases ps) auto
      from Cons.IH[OF c dv] r m parts True ps show ?thesis
        by (cases "map_of m p") (auto simp: update_conv')
    qed
  qed
qed simp

lemma set_path_distinct_keys:
  "set_path_loop root q a = Inr root' \<Longrightarrow> distinct_keys root \<Longrightarrow> distinct_keys a
   \<Longrightarrow> distinct_keys root'"
proof (induction q arbitrary: root root')
  case (Cons l qs)
  have "is_dict root"
    using Cons.prems(1) set_path_loop_non_dict[of root "l # qs" a] by auto
  then obtain m where m: "root = PDict m" by (cases root) auto
  have upd: "distinct_keys x \<Longrightarrow> distinct_keys (PDict (AList.update l x m))" for x
    using Cons.prems(2) m set_update_subset[of l x m]
    by (auto simp: distinct_update list_all_iff)
  show ?case
  proof (cases qs)
    case Nil
    with Cons.prems m upd show ?thesis by auto
  next
    case qs: (Cons q' qs')
    let ?child = "case map_of m l of Some c \<Rightarrow> c | None \<Rightarrow> PDict []"
    from Cons.prems(1) m qs obtain c' where
      c: "set_path_loop ?child qs a = Inr c'" and r: "root' = PDict (AList.update l c' m)"
      by (auto simp: set_path_loop_dict split: sum.splits simp del: set_path_loop.simps)
    have "distinct_keys ?child"
      using Cons.prems(2) m by (auto split: option.splits simp: list_all_iff dest: map_of_SomeD)
    from Cons.IH[OF c this Cons.prems(3)] r upd show ?thesis by simp
  qed
qed simp


lemma set_path_in_dict_dot:
  "set_path_in_dict root path a ''.'' = set_path_loop root (split_from ''.'' [] path) a"
  by (simp add: set_path_in_dict_def split_def)

lemma Attr_Inr: "Attr v st src = Inr a \<Longrightarrow> a = PAttr v st src \<and> \<not> is_attr v"
  by (cases v) auto

lemma env_loop_append:
  "env_loop w (xs @ ys) outer idx =
     (case env_loop w xs outer idx of
        Inl e \<Rightarrow> Inl e
      | Inr (outer', idx') \<Rightarrow> env_loop w ys outer' idx')"
  by (induction xs arbitrary: outer idx) (auto split: sum.splits)

lemma env_loop_mono:
  "env_loop w xs outer idx = Inr (outer', idx') \<Longrightarrow> idx \<le> idx'"
proof (induction xs arbitrary: outer idx)
  case (Cons x xs)
  obtain key raw where x: "x = (key, raw)" by (cases x)
  from Cons.prems x show ?case
    by (auto split: if_splits sum.splits dest!: Cons.IH)
qed simp

lemma env_loop_distinct_keys:
  "env_loop w xs outer idx = Inr (outer', idx') \<Longrightarrow> distinct_keys outer \<Longrightarrow> distinct_keys outer'"
proof (induction xs arbitrary: outer idx)
  case (Cons x xs)
  obtain key raw where x: "x = (key, raw)" by (cases x)
  show ?case
  proof (cases "startswith key ENV_PREFIX")
    case False
    with Cons.prems x Cons.IH show ?thesis by auto
  next
    case True
    with Cons.prems(1) x obtain a o1 where
      a: "Attr (case loads w raw of Some j \<Rightarrow> j | None \<Rightarrow> PStr raw) ENV (Some (relative_key key)) = Inr a"
      and s: "set_path_loop outer (split_from ''.'' [] (relative_key key)) a = Inr o1"
      and r: "env_loop w xs o1 (idx + 1) = Inr (outer', idx')"
      by (auto simp: set_path_in_dict_dot split: sum.splits)
    from Attr_Inr[OF a] have "distinct_keys a" by auto
    from Cons.IH[OF r set_path_distinct_keys[OF s Cons.prems(2) this]] show ?thesis .
  qed
qed simp

lemma env_loop_frame:
  "env_loop w xs outer idx = Inr (outer', idx')
   \<Longrightarrow> \<forall>(k, r) \<in> set xs. startswith k ENV_PREFIX
         \<longrightarrow> divergent (split_from ''.'' [] (relative_key k)) parts
   \<Longrightarrow> node_at outer' parts = node_at outer parts"
proof (induction xs arbitrary: outer idx)
  case (Cons x xs)
  obtain key raw where x: "x = (key, raw)" by (cases x)
  have rest: "\<forall>(k, r) \<in> set xs. startswith k ENV_PREFIX
         \<longrightarrow> divergent (split_from ''.'' [] (relative_key k)) parts"
    using Cons.prems(2) by auto
  show ?case
  proof (cases "startswith key ENV_PREFIX")
    case False
    with Cons.prems(1) x Cons.IH[OF _ rest] show ?thesis by auto
  next
    case True
    with Cons.prems(1) x obtain a o1 where
      s: "set_path_loop outer (split_from ''.'' [] (relative_key key)) a = Inr o1"
      and r: "env_loop w xs o1 (idx + 1) = Inr (outer', idx')"
      by (auto simp: set_path_in_dict_dot split: sum.splits)
    have "divergent (split_from ''.'' [] (relative_key key)) parts"
      using Cons.prems(2) x True by auto
    from set_path_frame[OF s this] Cons.IH[OF r rest] show ?thesis by simp
  qed
qed simp

lemma parse_uri_shape:
  "parse_uri w e s = Inr (a, e') \<Longrightarrow> \<exists>x. a = PAttr (PStr x) URI (Some s)"
  by (auto simp: parse_uri_def Let_def split: option.splits sum.splits if_splits)

text \<open>
  C6, as the code has it. Take a variable of the environment whose name starts with the
  prefix, such that no variable after it has a path that is a prefix of its path or that
  its path is a prefix of. When \<open>update_from_env\<close> returns, the tree holds at its dotted
  path: the cell of source type \<open>ENV\<close> whose source is the dotted path, if the
  value read from the variable (the JSON value, or the raw string where it is no JSON) is
  not a string; the cell that \<open>parse_uri\<close> returns for the string, which has the source
  type \<open>URI\<close> and the string as source, if it is one.
\<close>

theorem env_cell_provenance:
  assumes upd: "update_from_env w self = Inr self'"
    and env: "environ w = pre @ (key, raw) # post"
    and pre: "startswith key ENV_PREFIX"
    and post: "\<forall>(k, r) \<in> set post. startswith k ENV_PREFIX
         \<longrightarrow> divergent (split_from ''.'' [] (relative_key k)) (split_from ''.'' [] (relative_key key))"
    and v: "v = (case loads w raw of Some j \<Rightarrow> j | None \<Rightarrow> PStr raw)"
  shows "(\<not> is_str v \<longrightarrow> node_at (config self') (split_from ''.'' [] (relative_key key))
                            = Some (PAttr v ENV (Some (relative_key key))))
       \<and> (\<forall>s. v = PStr s \<longrightarrow>
             (\<exists>cell err x. parse_uri w [] s = Inr (cell, err)
                \<and> cell = PAttr (PStr x) URI (Some s)
                \<and> node_at (config self') (split_from ''.'' [] (relative_key key)) = Some cell))"
proof -
  let ?parts = "split_from ''.'' [] (relative_key key)"
  let ?cell = "PAttr v ENV (Some (relative_key key))"
  from upd obtain outer idx where
    loop: "env_loop w (environ w) (PDict []) 0 = Inr (outer, idx)"
    by (auto simp: update_from_env_def split: sum.splits)
  from loop env obtain o1 i1 where
    l1: "env_loop w pre (PDict []) 0 = Inr (o1, i1)"
    and l2: "env_loop w ((key, raw) # post) o1 i1 = Inr (outer, idx)"
    by (auto simp: env_loop_append split: sum.splits)
  from l2 pre v obtain a o2 where
    a: "Attr v ENV (Some (relative_key key)) = Inr a"
    and s: "set_path_loop o1 ?parts a = Inr o2"
    and l3: "env_loop w post o2 (i1 + 1) = Inr (outer, idx)"
    by (auto simp: set_path_in_dict_dot split: sum.splits)
  from Attr_Inr[OF a] have cell: "a = ?cell" by simp
  have n: "node_at outer ?parts = Some ?cell"
    using env_loop_frame[OF l3 post] set_path_loop_node_at[OF s] cell by simp
  have pos: "0 < idx" using env_loop_mono[OF l3] by simp
  have dk: "distinct_keys outer"
    using env_loop_distinct_keys[OF loop] by simp
  from upd loop pos obtain e1 c e2 where
    u: "update w e1 (config self) outer = Inr (c, e2)" and c: "config self' = c"
    by (auto simp: update_from_env_def split: sum.splits)
  from u obtain mo where mo: "outer = PDict mo" by (cases outer) auto
  from update_items_stores_leaf[of w e1 "config self" mo c e2 ?parts ?cell] u mo dk n
  obtain b e where b: "resolve w [] ?cell = Inr (b, e)" and nb: "node_at c ?parts = Some b"
    by (auto simp: split_from_nonempty)
  show ?thesis
  proof (cases "is_str v")
    case True
    then obtain s where sv: "v = PStr s" by (cases v) auto
    with b have pu: "parse_uri w [] s = Inr (b, e)" by simp
    from parse_uri_shape[OF pu] obtain x where "b = PAttr (PStr x) URI (Some s)" by blast
    with pu nb c sv show ?thesis by auto
  next
    case False
    with b have "b = ?cell" by (cases v) auto
    with nb c False show ?thesis by (cases v) auto
  qed
qed

lemma relative_key_port: "relative_key ''AUTHENTIK_REDIS__PORT'' = ''redis.port''"
  by code_simp

lemma relative_key_host: "relative_key ''AUTHENTIK_REDIS__HOST'' = ''redis.host''"
  by code_simp

lemma relative_key_pg: "relative_key ''AUTHENTIK_POSTGRESQL__HOST'' = ''postgresql.host''"
  by code_simp

text \<open>
  C6 as stated gives every such cell the source type \<open>ENV\<close> and the dotted path as
  source. \<open>AUTHENTIK_POSTGRESQL__HOST=localhost\<close> is stored with the source type
  \<open>URI\<close> and the source \<open>localhost\<close>: \<open>update\<close> passes the string of an
  \<open>Attr\<close> through \<open>parse_uri\<close>.
\<close>

theorem env_string_cell_is_uri:
  "startswith ''AUTHENTIK_POSTGRESQL__HOST'' ENV_PREFIX
   \<and> relative_key ''AUTHENTIK_POSTGRESQL__HOST'' = ''postgresql.host''
   \<and> update_from_env closed_world \<lparr>config = PDict [], stderr = []\<rparr>
       = Inr \<lparr>config = PDict [(''postgresql'',
                  PDict [(''host'', PAttr (PStr ''localhost'') URI (Some ''localhost''))])],
              stderr = [(''debug'', ''Loaded environment variables'', [(''count'', LInt 1)])]\<rparr>
   \<and> get_path_from_dict (PDict [(''postgresql'',
                  PDict [(''host'', PAttr (PStr ''localhost'') URI (Some ''localhost''))])])
         ''postgresql.host'' ''.'' PNone
       = Inr (PAttr (PStr ''localhost'') URI (Some ''localhost''))"
  by (simp add: relative_key_pg update_from_env_def closed_world_def startswith_def ENV_PREFIX_def
        set_path_in_dict_def get_path_from_dict_def split_def log_def parse_uri_def)

theorem env_cell_provenance_witness:
  "node_at (PDict [(''redis'', PDict [(''port'', PAttr (PInt 6379) ENV (Some ''redis.port'')),
                                     (''host'', PAttr (PStr ''cache'') URI (Some ''cache''))])])
      (split_from ''.'' [] (relative_key ''AUTHENTIK_REDIS__PORT''))
     = Some (PAttr (PInt 6379) ENV (Some (relative_key ''AUTHENTIK_REDIS__PORT'')))"
proof -
  let ?c = "PDict [(''redis'', PDict [(''port'', PAttr (PInt 6379) ENV (Some ''redis.port'')),
                                     (''host'', PAttr (PStr ''cache'') URI (Some ''cache''))])]"
  have u: "update_from_env sample_world \<lparr>config = PDict [], stderr = []\<rparr>
       = Inr \<lparr>config = ?c,
              stderr = [(''debug'', ''Loaded environment variables'', [(''count'', LInt 2)])]\<rparr>"
    by (simp add: relative_key_port relative_key_host update_from_env_def sample_world_def
          startswith_def ENV_PREFIX_def set_path_in_dict_def split_def log_def parse_uri_def)
  have e: "environ sample_world = [] @ (''AUTHENTIK_REDIS__PORT'', ''6379'')
             # [(''PATH'', ''/bin''), (''AUTHENTIK_REDIS__HOST'', ''cache'')]"
    by (simp add: sample_world_def)
  have p: "startswith ''AUTHENTIK_REDIS__PORT'' ENV_PREFIX"
    by (simp add: startswith_def ENV_PREFIX_def)
  have d: "\<forall>(k, r) \<in> set [(''PATH'', ''/bin''), (''AUTHENTIK_REDIS__HOST'', ''cache'')].
             startswith k ENV_PREFIX
             \<longrightarrow> divergent (split_from ''.'' [] (relative_key k))
                   (split_from ''.'' [] (relative_key ''AUTHENTIK_REDIS__PORT''))"
    by (simp add: startswith_def ENV_PREFIX_def relative_key_port relative_key_host)
  have v: "PInt 6379 = (case loads sample_world ''6379'' of Some j \<Rightarrow> j | None \<Rightarrow> PStr ''6379'')"
    by (simp add: sample_world_def)
  from env_cell_provenance[OF u e p d v] show ?thesis by simp
qed

subsection \<open>Deprecations\<close>

lemma pop_deprecated_key_dict:
  "pop_deprecated_key (PDict m) (l # q # qs) =
     (case map_of m l of
        None \<Rightarrow> Inl KeyError
      | Some child \<Rightarrow>
          (case pop_deprecated_key child (q # qs) of
             Inl e \<Rightarrow> Inl e
           | Inr (v, child') \<Rightarrow>
               Inr (v, if \<not> truthy child' then PDict (AList.delete l m)
                       else PDict (AList.update l child' m))))"
  by (auto split: option.splits sum.splits simp: update_conv' delete_update_same)

lemma pop_deprecated_key_non_dict:
  "\<not> is_dict c \<Longrightarrow> isl (pop_deprecated_key c q)"
proof (cases q)
  case (Cons l qs)
  assume "\<not> is_dict c"
  then show ?thesis using Cons by (cases qs; cases c) auto
qed simp

lemma pop_deprecated_key_is_dict:
  "pop_deprecated_key c q = Inr (v, c') \<Longrightarrow> is_dict c'"
proof (cases q)
  case Nil
  assume "pop_deprecated_key c q = Inr (v, c')"
  with Nil show ?thesis by simp
next
  case (Cons l qs)
  assume a: "pop_deprecated_key c q = Inr (v, c')"
  then have "is_dict c" using pop_deprecated_key_non_dict[of c q] by auto
  then obtain m where m: "c = PDict m" by (cases c) auto
  show ?thesis
  proof (cases qs)
    case Nil
    with a Cons m show ?thesis by (auto split: option.splits)
  next
    case qs: (Cons q' qs')
    with a Cons m show ?thesis
      by (auto simp: pop_deprecated_key_dict split: option.splits sum.splits if_splits
               simp del: pop_deprecated_key.simps)
  qed
qed

lemma falsy_dict: "is_dict c \<Longrightarrow> \<not> truthy c \<Longrightarrow> c = PDict []"
  by (cases c) auto

lemma pop_deprecated_key_get:
  "pop_deprecated_key c q = Inr (v, c') \<Longrightarrow> get_path_loop c q d = Inr v"
proof (induction q arbitrary: c c')
  case (Cons l qs)
  have "is_dict c" using Cons.prems pop_deprecated_key_non_dict[of c "l # qs"] by auto
  then obtain m where m: "c = PDict m" by (cases c) auto
  show ?case
  proof (cases qs)
    case Nil
    with Cons.prems m show ?thesis by (auto split: option.splits)
  next
    case qs: (Cons q' qs')
    from Cons.prems m qs obtain child child' where
      ch: "map_of m l = Some child" and r: "pop_deprecated_key child qs = Inr (v, child')"
      by (auto simp: pop_deprecated_key_dict split: option.splits sum.splits
               simp del: pop_deprecated_key.simps)
    from Cons.IH[OF r] ch m show ?thesis
      by (simp add: get_path_loop_dict del: get_path_loop.simps)
  qed
qed simp

lemma pop_deprecated_key_absent:
  "pop_deprecated_key c q = Inr (v, c') \<Longrightarrow> get_path_loop c' q d = Inr d"
proof (induction q arbitrary: c c')
  case (Cons l qs)
  have "is_dict c" using Cons.prems pop_deprecated_key_non_dict[of c "l # qs"] by auto
  then obtain m where m: "c = PDict m" by (cases c) auto
  show ?case
  proof (cases qs)
    case Nil
    with Cons.prems m show ?thesis
      by (auto split: option.splits simp: get_path_loop_dict delete_conv' simp del: get_path_loop.simps)
  next
    case qs: (Cons q' qs')
    from Cons.prems m qs obtain child child' where
      ch: "map_of m l = Some child" and r: "pop_deprecated_key child qs = Inr (v, child')"
      and c': "c' = (if \<not> truthy child' then PDict (AList.delete l m)
                       else PDict (AList.update l child' m))"
      by (auto simp: pop_deprecated_key_dict split: option.splits sum.splits
               simp del: pop_deprecated_key.simps)
    from Cons.IH[OF r] c' show ?thesis
      by (simp add: get_path_loop_dict delete_conv' update_conv' del: get_path_loop.simps)
  qed
qed simp

lemma get_path_loop_empty: "ps \<noteq> [] \<Longrightarrow> get_path_loop (PDict []) ps d = Inr d"
  by (cases ps) auto

lemma divergent_nonempty: "divergent q P \<Longrightarrow> q \<noteq> [] \<and> P \<noteq> []"
  by (cases q; cases P) auto

lemma pop_deprecated_key_frame:
  "pop_deprecated_key c q = Inr (v, c') \<Longrightarrow> divergent q P
   \<Longrightarrow> get_path_loop c' P d = get_path_loop c P d"
proof (induction q arbitrary: c c' P)
  case (Cons l qs)
  from Cons.prems(2) obtain p ps where P: "P = p # ps" by (cases P) auto
  have "is_dict c" using Cons.prems pop_deprecated_key_non_dict[of c "l # qs"] by auto
  then obtain m where m: "c = PDict m" by (cases c) auto
  show ?case
  proof (cases qs)
    case Nil
    with Cons.prems m P show ?thesis
      by (auto split: option.splits simp: get_path_loop_dict delete_conv' simp del: get_path_loop.simps)
  next
    case qs: (Cons q' qs')
    from Cons.prems m qs obtain child child' where
      ch: "map_of m l = Some child" and r: "pop_deprecated_key child qs = Inr (v, child')"
      and c': "c' = (if \<not> truthy child' then PDict (AList.delete l m)
                       else PDict (AList.update l child' m))"
      by (auto simp: pop_deprecated_key_dict split: option.splits sum.splits
               simp del: pop_deprecated_key.simps)
    show ?thesis
    proof (cases "l = p")
      case False
      with c' m P show ?thesis
        by (simp add: get_path_loop_dict delete_conv' update_conv' del: get_path_loop.simps)
    next
      case True
      with Cons.prems(2) P have dv: "divergent qs ps" by simp
      then have ps: "ps \<noteq> []" by (simp add: divergent_nonempty)
      note ih = Cons.IH[OF r dv]
      show ?thesis
      proof (cases "truthy child'")
        case True
        with c' m P ch ih \<open>l = p\<close> show ?thesis
          by (simp add: get_path_loop_dict update_conv' del: get_path_loop.simps)
      next
        case False
        with falsy_dict[OF pop_deprecated_key_is_dict[OF r]] have "child' = PDict []" by simp
        with ih get_path_loop_empty[OF ps] have "get_path_loop child ps d = Inr d" by simp
        with False c' m P ch \<open>l = p\<close> show ?thesis
          by (simp add: get_path_loop_dict delete_conv' del: get_path_loop.simps)
      qed
    qed
  qed
qed simp

lemma set_path_frame_get:
  "set_path_loop root q a = Inr root' \<Longrightarrow> divergent q P
   \<Longrightarrow> get_path_loop root' P d = get_path_loop root P d"
proof (induction q arbitrary: root root' P)
  case (Cons l qs)
  from Cons.prems(2) obtain p ps where P: "P = p # ps" by (cases P) auto
  have "is_dict root"
    using Cons.prems(1) set_path_loop_non_dict[of root "l # qs" a] by auto
  then obtain m where m: "root = PDict m" by (cases root) auto
  show ?case
  proof (cases qs)
    case Nil
    with Cons.prems m P show ?thesis
      by (auto simp: get_path_loop_dict update_conv' simp del: get_path_loop.simps)
  next
    case qs: (Cons q' qs')
    let ?child = "case map_of m l of Some c \<Rightarrow> c | None \<Rightarrow> PDict []"
    from Cons.prems(1) m qs obtain c' where
      c: "set_path_loop ?child qs a = Inr c'" and r: "root' = PDict (AList.update l c' m)"
      by (auto simp: set_path_loop_dict split: sum.splits simp del: set_path_loop.simps)
    show ?thesis
    proof (cases "l = p")
      case False
      with r m P show ?thesis
        by (simp add: get_path_loop_dict update_conv' del: get_path_loop.simps)
    next
      case True
      with Cons.prems(2) P have dv: "divergent qs ps" by simp
      then have ps: "ps \<noteq> []" by (simp add: divergent_nonempty)
      from Cons.IH[OF c dv] r m P True get_path_loop_empty[OF ps] show ?thesis
        by (cases "map_of m p") (simp_all add: get_path_loop_dict update_conv' del: get_path_loop.simps)
    qed
  qed
qed simp

lemma DEPRECATIONS_independent: "independent DEPRECATIONS"
  by code_simp

lemma log_plain: "log err lvl msg [] = Inr (err @ [(lvl, msg, [])])"
  by (simp add: log_def)

lemma check_loop_Cons_cases:
  assumes "check_loop w self ((dep, rep) # rest) = Inr self'"
  obtains (skip) "get self dep PUnset ''.'' = Inr PUnset" "check_loop w self rest = Inr self'"
  | (unsaved) x where "get self dep PUnset ''.'' = Inr x" "x \<noteq> PUnset"
      "event_save w (deprecation_message dep rep) = Some ImportError"
      "check_loop w (self\<lparr>stderr := stderr self @ [(''warning'', deprecation_message dep rep, [])]\<rparr>) rest
         = Inr self'"
  | (migrate) x attr c y c2 where "get self dep PUnset ''.'' = Inr x" "x \<noteq> PUnset"
      "event_save w (deprecation_message dep rep) = None"
      "pop_deprecated_key (config self) (split_from ''.'' [] dep) = Inr (attr, c)"
      "dot_value attr = Inr y"
      "set_path_loop c (split_from ''.'' [] rep) (PAttr y UNSPECIFIED None) = Inr c2"
      "check_loop w \<lparr>config = c2, stderr = stderr self @ [(''warning'', deprecation_message dep rep, [])]\<rparr> rest
         = Inr self'"
proof -
  from assms obtain x where g: "get self dep PUnset ''.'' = Inr x"
    by (cases "get self dep PUnset ''.''") auto
  show ?thesis
  proof (cases "x = PUnset")
    case True
    with assms g skip show ?thesis by simp
  next
    case False
    note x = this
    show ?thesis
    proof (cases "event_save w (deprecation_message dep rep)")
      case (Some e)
      with assms g x unsaved show ?thesis
        by (auto simp: log_plain split: if_splits)
    next
      case None
      with assms g x obtain attr c where
        p: "pop_deprecated_key (config self) (split_from ''.'' [] dep) = Inr (attr, c)"
        by (auto simp: log_plain split: sum.splits)
      with assms g x None obtain y where y: "dot_value attr = Inr y"
        by (auto simp: log_plain split: sum.splits)
      from assms g x None p y obtain s2 where
        s2: "set_conf \<lparr>config = c, stderr = stderr self @ [(''warning'', deprecation_message dep rep, [])]\<rparr>
               rep y ''.'' = Inr s2"
        and r: "check_loop w s2 rest = Inr self'"
        by (auto simp: log_plain split: sum.splits)
      have ny: "\<not> is_attr y" using s2 by (cases y) (auto simp: set_conf_def)
      from s2 obtain c2 where
        "set_path_loop c (split_from ''.'' [] rep) (PAttr y UNSPECIFIED None) = Inr c2"
        "s2 = \<lparr>config = c2, stderr = stderr self @ [(''warning'', deprecation_message dep rep, [])]\<rparr>"
        by (auto simp: set_conf_unfold[OF ny] split: sum.splits)
      with migrate[OF g x None p y] r show ?thesis by simp
    qed
  qed
qed


lemma check_loop_frame:
  "check_loop w self tbl = Inr self'
   \<Longrightarrow> \<forall>e \<in> set tbl. divergent (split_from ''.'' [] (fst e)) P
                      \<and> divergent (split_from ''.'' [] (snd e)) P
   \<Longrightarrow> get_path_loop (config self') P d = get_path_loop (config self) P d"
proof (induction tbl arbitrary: self)
  case (Cons e rest)
  obtain dep rep where e: "e = (dep, rep)" by (cases e)
  have rest: "\<forall>e \<in> set rest. divergent (split_from ''.'' [] (fst e)) P
                      \<and> divergent (split_from ''.'' [] (snd e)) P"
    using Cons.prems(2) by simp
  have dd: "divergent (split_from ''.'' [] dep) P" and dr: "divergent (split_from ''.'' [] rep) P"
    using Cons.prems(2) e by simp_all
  from Cons.prems(1) e have "check_loop w self ((dep, rep) # rest) = Inr self'" by simp
  then show ?case
  proof (cases rule: check_loop_Cons_cases)
    case skip
    from Cons.IH[OF skip(2) rest] show ?thesis .
  next
    case (unsaved x)
    from Cons.IH[OF unsaved(4) rest] show ?thesis by simp
  next
    case (migrate x attr c y c2)
    from Cons.IH[OF migrate(7) rest] set_path_frame_get[OF migrate(6) dr]
      pop_deprecated_key_frame[OF migrate(4) dd]
    show ?thesis by simp
  qed
qed simp

lemma check_loop_log:
  "check_loop w self tbl = Inr self' \<Longrightarrow> set (stderr self) \<subseteq> set (stderr self')"
proof (induction tbl arbitrary: self)
  case (Cons e rest)
  obtain dep rep where e: "e = (dep, rep)" by (cases e)
  from Cons.prems(1) e have "check_loop w self ((dep, rep) # rest) = Inr self'" by simp
  then show ?case
  proof (cases rule: check_loop_Cons_cases)
    case skip
    from Cons.IH[OF skip(2)] show ?thesis .
  next
    case (unsaved x)
    from Cons.IH[OF unsaved(4)] show ?thesis by auto
  next
    case (migrate x attr c y c2)
    from Cons.IH[OF migrate(7)] show ?thesis by auto
  qed
qed simp

lemma check_loop_append:
  "check_loop w self (xs @ ys) =
     (case check_loop w self xs of Inl e \<Rightarrow> Inl e | Inr s1 \<Rightarrow> check_loop w s1 ys)"
proof (induction xs arbitrary: self)
  case (Cons e rest)
  obtain dep rep where e: "e = (dep, rep)" by (cases e)
  show ?case unfolding e
    by (simp add: Cons.IH split: sum.splits option.splits prod.splits)
qed simp

lemma check_loop_migrates:
  assumes run: "check_loop w self (pre @ (old, new) # post) = Inr self'"
    and ap: "\<forall>e \<in> set pre \<union> set post. apart e (old, new)"
    and dv: "divergent (split_from ''.'' [] new) (split_from ''.'' [] old)"
    and g: "get self old PUnset ''.'' = Inr x" and x: "x \<noteq> PUnset"
    and ev: "event_save w (deprecation_message old new) = None"
  shows "get self' old PUnset ''.'' = Inr PUnset
       \<and> get self' new PNone ''.'' = Inr x
       \<and> (''warning'', deprecation_message old new, []) \<in> set (stderr self')"
proof -
  let ?o = "split_from ''.'' [] old" and ?n = "split_from ''.'' [] new"
  let ?D = "PAttr PUnset UNSPECIFIED None" and ?N = "PAttr PNone UNSPECIFIED None"
  have apd: "divergent (split_from ''.'' [] (fst e)) ?o \<and> divergent (split_from ''.'' [] (snd e)) ?o
           \<and> divergent (split_from ''.'' [] (fst e)) ?n \<and> divergent (split_from ''.'' [] (snd e)) ?n"
    if "e \<in> set pre \<union> set post" for e
  proof -
    obtain a b where e: "e = (a, b)" by (cases e)
    with ap that have "apart (a, b) (old, new)" by blast
    with e show ?thesis by simp
  qed
  have fo: "\<forall>e \<in> set ys. divergent (split_from ''.'' [] (fst e)) ?o
                      \<and> divergent (split_from ''.'' [] (snd e)) ?o"
    if "set ys \<subseteq> set pre \<union> set post" for ys
    using apd that by blast
  have fn: "\<forall>e \<in> set ys. divergent (split_from ''.'' [] (fst e)) ?n
                      \<and> divergent (split_from ''.'' [] (snd e)) ?n"
    if "set ys \<subseteq> set pre \<union> set post" for ys
    using apd that by blast
  from run obtain s1 where
    r1: "check_loop w self pre = Inr s1" and r2: "check_loop w s1 ((old, new) # post) = Inr self'"
    by (auto simp: check_loop_append split: sum.splits)
  have "get_path_loop (config s1) ?o ?D = get_path_loop (config self) ?o ?D"
    by (rule check_loop_frame[OF r1 fo]) simp
  with g have g1: "get s1 old PUnset ''.'' = Inr x" by (simp add: get_unfold)
  from r2 show ?thesis
  proof (cases rule: check_loop_Cons_cases)
    case skip
    with g1 x show ?thesis by simp
  next
    case (unsaved x')
    with ev show ?thesis by simp
  next
    case (migrate x' attr c y c2)
    let ?s2 = "\<lparr>config = c2, stderr = stderr s1 @ [(''warning'', deprecation_message old new, [])]\<rparr>"
    from g1 pop_deprecated_key_get[OF migrate(4), of ?D] migrate(5) have y: "y = x"
      by (simp add: get_unfold)
    have o2: "get_path_loop c2 ?o ?D = Inr ?D"
      using set_path_frame_get[OF migrate(6) dv] pop_deprecated_key_absent[OF migrate(4)] by simp
    have n2: "get_path_loop c2 ?n ?N = Inr (PAttr x UNSPECIFIED None)"
      using node_at_get_path_loop[OF set_path_loop_node_at[OF migrate(6)]] y by simp
    have "get_path_loop (config self') ?o ?D = get_path_loop (config ?s2) ?o ?D"
      by (rule check_loop_frame[OF migrate(7) fo]) simp
    moreover have "get_path_loop (config self') ?n ?N = get_path_loop (config ?s2) ?n ?N"
      by (rule check_loop_frame[OF migrate(7) fn]) simp
    moreover have "(''warning'', deprecation_message old new, []) \<in> set (stderr self')"
      using check_loop_log[OF migrate(7)] by auto
    ultimately show ?thesis using o2 n2 by (simp add: get_unfold)
  qed
qed

lemma independent_split:
  assumes "independent tbl" and "e \<in> set tbl"
  shows "\<exists>pre post. tbl = pre @ e # post \<and> (\<forall>e' \<in> set pre \<union> set post. apart e' e)
           \<and> divergent (split_from ''.'' [] (snd e)) (split_from ''.'' [] (fst e))"
proof -
  from assms(2) obtain pre post where t: "tbl = pre @ e # post" by (auto dest: split_list)
  from assms(1) t have "e \<notin> set pre \<union> set post" by (auto simp: independent_def)
  moreover from assms have "\<forall>e' \<in> set tbl. e' = e \<or> apart e' e"
    and "divergent (split_from ''.'' [] (snd e)) (split_from ''.'' [] (fst e))"
    by (auto simp: independent_def list_all_iff)
  ultimately have "\<forall>e' \<in> set pre \<union> set post. apart e' e"
    and "divergent (split_from ''.'' [] (snd e)) (split_from ''.'' [] (fst e))"
    using t by auto
  with t show ?thesis by blast
qed

lemma pop_deprecated_key_frame_node:
  "pop_deprecated_key c q = Inr (v, c') \<Longrightarrow> divergent q P
   \<Longrightarrow> node_at c' P = node_at c P"
proof (induction q arbitrary: c c' P)
  case (Cons l qs)
  from Cons.prems(2) obtain p ps where P: "P = p # ps" by (cases P) auto
  have "is_dict c" using Cons.prems pop_deprecated_key_non_dict[of c "l # qs"] by auto
  then obtain m where m: "c = PDict m" by (cases c) auto
  show ?case
  proof (cases qs)
    case Nil
    with Cons.prems m P show ?thesis
      by (auto split: option.splits simp: delete_conv')
  next
    case qs: (Cons q' qs')
    from Cons.prems m qs obtain child child' where
      ch: "map_of m l = Some child" and r: "pop_deprecated_key child qs = Inr (v, child')"
      and c': "c' = (if \<not> truthy child' then PDict (AList.delete l m)
                       else PDict (AList.update l child' m))"
      by (auto simp: pop_deprecated_key_dict split: option.splits sum.splits
               simp del: pop_deprecated_key.simps)
    show ?thesis
    proof (cases "l = p")
      case False
      with c' m P show ?thesis by (simp add: delete_conv' update_conv')
    next
      case True
      with Cons.prems(2) P have dv: "divergent qs ps" by simp
      then obtain x xs where ps: "ps = x # xs" by (cases qs; cases ps) auto
      note ih = Cons.IH[OF r dv]
      show ?thesis
      proof (cases "truthy child'")
        case True
        with c' m P ch ih \<open>l = p\<close> show ?thesis by (simp add: update_conv')
      next
        case False
        with falsy_dict[OF pop_deprecated_key_is_dict[OF r]] have "child' = PDict []" by simp
        with ih ps have "node_at child ps = None" by simp
        with False c' m P ch \<open>l = p\<close> show ?thesis by (simp add: delete_conv')
      qed
    qed
  qed
qed simp

lemma pop_deprecated_key_pruned:
  "pop_deprecated_key c q = Inr (v, c') \<Longrightarrow> P \<noteq> [] \<Longrightarrow> proper_prefix P q
   \<Longrightarrow> node_at c' P \<noteq> Some (PDict [])"
proof (induction q arbitrary: c c' P)
  case (Cons l qs)
  from Cons.prems(2,3) obtain ps where P: "P = l # ps" and pp: "proper_prefix ps qs"
    by (cases P) auto
  have "is_dict c" using Cons.prems pop_deprecated_key_non_dict[of c "l # qs"] by auto
  then obtain m where m: "c = PDict m" by (cases c) auto
  from pp obtain q' qs' where qs: "qs = q' # qs'" by (cases qs) auto
  from Cons.prems(1) m qs obtain child child' where
    ch: "map_of m l = Some child" and r: "pop_deprecated_key child qs = Inr (v, child')"
    and c': "c' = (if \<not> truthy child' then PDict (AList.delete l m)
                     else PDict (AList.update l child' m))"
    by (auto simp: pop_deprecated_key_dict split: option.splits sum.splits
             simp del: pop_deprecated_key.simps)
  show ?case
  proof (cases "truthy child'")
    case False
    with c' P show ?thesis by (simp add: delete_conv')
  next
    case True
    show ?thesis
    proof (cases ps)
      case Nil
      with True c' P show ?thesis by (auto simp: update_conv')
    next
      case (Cons x xs)
      with Cons.IH[OF r _ pp] True c' P show ?thesis by (simp add: update_conv')
    qed
  qed
qed simp

lemma set_path_loop_prefix:
  "set_path_loop root q a = Inr root' \<Longrightarrow> proper_prefix P q
   \<Longrightarrow> node_at root' P \<noteq> Some (PDict [])"
proof (induction q arbitrary: root root' P)
  case (Cons l qs)
  have "is_dict root"
    using Cons.prems(1) set_path_loop_non_dict[of root "l # qs" a] by auto
  then obtain m where m: "root = PDict m" by (cases root) auto
  show ?case
  proof (cases qs)
    case Nil
    with Cons.prems m show ?thesis by (cases P) auto
  next
    case qs: (Cons q' qs')
    let ?child = "case map_of m l of Some c \<Rightarrow> c | None \<Rightarrow> PDict []"
    from Cons.prems(1) m qs obtain c' where
      c: "set_path_loop ?child qs a = Inr c'" and r: "root' = PDict (AList.update l c' m)"
      by (auto simp: set_path_loop_dict split: sum.splits simp del: set_path_loop.simps)
    show ?thesis
    proof (cases P)
      case Nil
      with r show ?thesis by simp
    next
      case (Cons p ps)
      with Cons.prems(2) have "p = l" "proper_prefix ps qs" by simp_all
      with Cons.IH[OF c this(2)] r Cons show ?thesis by (simp add: update_conv')
    qed
  qed
qed simp

lemma divergent_prefix_cases:
  "divergent q b \<Longrightarrow> proper_prefix P b \<Longrightarrow> P \<noteq> [] \<Longrightarrow> divergent q P \<or> proper_prefix P q"
proof (induction q b arbitrary: P rule: divergent.induct)
  case (1 p ps q qs)
  from 1(3,4) obtain x xs where P: "P = x # xs" and xq: "x = q" and pp: "proper_prefix xs qs"
    by (cases P) auto
  show ?case
  proof (cases "p = q")
    case False
    with P xq show ?thesis by simp
  next
    case True
    with 1(2) have dv: "divergent ps qs" by simp
    show ?thesis
    proof (cases xs)
      case Nil
      with dv P xq True show ?thesis by (cases ps) auto
    next
      case (Cons y ys)
      with 1(1)[OF _ pp] dv True P xq show ?thesis by auto
    qed
  qed
qed simp_all

lemma check_loop_pruned:
  "check_loop w self tbl = Inr self'
   \<Longrightarrow> \<forall>e \<in> set tbl. (divergent (split_from ''.'' [] (fst e)) P \<or> proper_prefix P (split_from ''.'' [] (fst e)))
                      \<and> (divergent (split_from ''.'' [] (snd e)) P \<or> proper_prefix P (split_from ''.'' [] (snd e)))
   \<Longrightarrow> P \<noteq> []
   \<Longrightarrow> node_at (config self) P \<noteq> Some (PDict [])
   \<Longrightarrow> node_at (config self') P \<noteq> Some (PDict [])"
proof (induction tbl arbitrary: self)
  case (Cons e rest)
  obtain dep rep where e: "e = (dep, rep)" by (cases e)
  have rest: "\<forall>e \<in> set rest. (divergent (split_from ''.'' [] (fst e)) P \<or> proper_prefix P (split_from ''.'' [] (fst e)))
                      \<and> (divergent (split_from ''.'' [] (snd e)) P \<or> proper_prefix P (split_from ''.'' [] (snd e)))"
    using Cons.prems(2) by simp
  have dd: "divergent (split_from ''.'' [] dep) P \<or> proper_prefix P (split_from ''.'' [] dep)"
    and dr: "divergent (split_from ''.'' [] rep) P \<or> proper_prefix P (split_from ''.'' [] rep)"
    using Cons.prems(2) e by simp_all
  from Cons.prems(1) e have "check_loop w self ((dep, rep) # rest) = Inr self'" by simp
  then show ?case
  proof (cases rule: check_loop_Cons_cases)
    case skip
    from Cons.IH[OF skip(2) rest Cons.prems(3,4)] show ?thesis .
  next
    case (unsaved x)
    from Cons.IH[OF unsaved(4) rest Cons.prems(3)] Cons.prems(4) show ?thesis by simp
  next
    case (migrate x attr c y c2)
    have "node_at c P \<noteq> Some (PDict [])"
      using dd pop_deprecated_key_frame_node[OF migrate(4)] Cons.prems(3,4)
        pop_deprecated_key_pruned[OF migrate(4) Cons.prems(3)] by auto
    then have "node_at c2 P \<noteq> Some (PDict [])"
      using dr set_path_frame[OF migrate(6)] set_path_loop_prefix[OF migrate(6)] by auto
    with Cons.IH[OF migrate(7) rest Cons.prems(3)] show ?thesis by simp
  qed
qed simp

lemma check_loop_migrates_pruned:
  assumes run: "check_loop w self (pre @ (old, new) # post) = Inr self'"
    and ap: "\<forall>e \<in> set pre \<union> set post. apart e (old, new)"
    and dv: "divergent (split_from ''.'' [] new) (split_from ''.'' [] old)"
    and g: "get self old PUnset ''.'' = Inr x" and x: "x \<noteq> PUnset"
    and ev: "event_save w (deprecation_message old new) = None"
    and P: "P \<noteq> []" "proper_prefix P (split_from ''.'' [] old)"
  shows "node_at (config self') P \<noteq> Some (PDict [])"
proof -
  let ?o = "split_from ''.'' [] old" and ?n = "split_from ''.'' [] new"
  let ?D = "PAttr PUnset UNSPECIFIED None"
  have clear: "divergent q P \<or> proper_prefix P q" if "divergent q ?o" for q
    using divergent_prefix_cases[OF that P(2) P(1)] .
  have apd: "divergent (split_from ''.'' [] (fst e)) ?o \<and> divergent (split_from ''.'' [] (snd e)) ?o"
    if "e \<in> set pre \<union> set post" for e
  proof -
    obtain a b where e: "e = (a, b)" by (cases e)
    with ap that have "apart (a, b) (old, new)" by blast
    with e show ?thesis by simp
  qed
  have fo: "\<forall>e \<in> set pre. divergent (split_from ''.'' [] (fst e)) ?o
                      \<and> divergent (split_from ''.'' [] (snd e)) ?o"
    using apd by blast
  have fp: "\<forall>e \<in> set post.
      (divergent (split_from ''.'' [] (fst e)) P \<or> proper_prefix P (split_from ''.'' [] (fst e)))
      \<and> (divergent (split_from ''.'' [] (snd e)) P \<or> proper_prefix P (split_from ''.'' [] (snd e)))"
    using apd clear by blast
  from run obtain s1 where
    r1: "check_loop w self pre = Inr s1" and r2: "check_loop w s1 ((old, new) # post) = Inr self'"
    by (auto simp: check_loop_append split: sum.splits)
  have "get_path_loop (config s1) ?o ?D = get_path_loop (config self) ?o ?D"
    by (rule check_loop_frame[OF r1 fo])
  with g have g1: "get s1 old PUnset ''.'' = Inr x" by (simp add: get_unfold)
  from r2 show ?thesis
  proof (cases rule: check_loop_Cons_cases)
    case skip
    with g1 x show ?thesis by simp
  next
    case (unsaved x')
    with ev show ?thesis by simp
  next
    case (migrate x' attr c y c2)
    have "node_at c P \<noteq> Some (PDict [])"
      by (rule pop_deprecated_key_pruned[OF migrate(4) P])
    then have "node_at c2 P \<noteq> Some (PDict [])"
      using clear[OF dv] set_path_frame[OF migrate(6)] set_path_loop_prefix[OF migrate(6)] by auto
    with check_loop_pruned[OF migrate(7) fp P(1)] show ?thesis by simp
  qed
qed

lemma check_loop_unsaved:
  assumes run: "check_loop w self (pre @ (old, new) # post) = Inr self'"
    and ap: "\<forall>e \<in> set pre \<union> set post. apart e (old, new)"
    and g: "get self old PUnset ''.'' = Inr x" and x: "x \<noteq> PUnset"
  shows "(''warning'', deprecation_message old new, []) \<in> set (stderr self')
       \<and> (event_save w (deprecation_message old new) = Some ImportError
            \<longrightarrow> get self' old PUnset ''.'' = Inr x
                \<and> get self' new PNone ''.'' = get self new PNone ''.'')"
proof -
  let ?o = "split_from ''.'' [] old" and ?n = "split_from ''.'' [] new"
  let ?D = "PAttr PUnset UNSPECIFIED None" and ?N = "PAttr PNone UNSPECIFIED None"
  have apd: "divergent (split_from ''.'' [] (fst e)) ?o \<and> divergent (split_from ''.'' [] (snd e)) ?o
           \<and> divergent (split_from ''.'' [] (fst e)) ?n \<and> divergent (split_from ''.'' [] (snd e)) ?n"
    if "e \<in> set pre \<union> set post" for e
  proof -
    obtain a b where e: "e = (a, b)" by (cases e)
    with ap that have "apart (a, b) (old, new)" by blast
    with e show ?thesis by simp
  qed
  have fo: "\<forall>e \<in> set ys. divergent (split_from ''.'' [] (fst e)) ?o
                      \<and> divergent (split_from ''.'' [] (snd e)) ?o"
    if "set ys \<subseteq> set pre \<union> set post" for ys
    using apd that by blast
  have fn: "\<forall>e \<in> set ys. divergent (split_from ''.'' [] (fst e)) ?n
                      \<and> divergent (split_from ''.'' [] (snd e)) ?n"
    if "set ys \<subseteq> set pre \<union> set post" for ys
    using apd that by blast
  from run obtain s1 where
    r1: "check_loop w self pre = Inr s1" and r2: "check_loop w s1 ((old, new) # post) = Inr self'"
    by (auto simp: check_loop_append split: sum.splits)
  have o1: "get_path_loop (config s1) ?o ?D = get_path_loop (config self) ?o ?D"
    by (rule check_loop_frame[OF r1 fo]) simp
  have n1: "get_path_loop (config s1) ?n ?N = get_path_loop (config self) ?n ?N"
    by (rule check_loop_frame[OF r1 fn]) simp
  from o1 g have g1: "get s1 old PUnset ''.'' = Inr x" by (simp add: get_unfold)
  from r2 show ?thesis
  proof (cases rule: check_loop_Cons_cases)
    case skip
    with g1 x show ?thesis by simp
  next
    case (unsaved x')
    let ?s2 = "s1\<lparr>stderr := stderr s1 @ [(''warning'', deprecation_message old new, [])]\<rparr>"
    have "get_path_loop (config self') ?o ?D = get_path_loop (config ?s2) ?o ?D"
      by (rule check_loop_frame[OF unsaved(4) fo]) simp
    moreover have "get_path_loop (config self') ?n ?N = get_path_loop (config ?s2) ?n ?N"
      by (rule check_loop_frame[OF unsaved(4) fn]) simp
    moreover have "(''warning'', deprecation_message old new, []) \<in> set (stderr self')"
      using check_loop_log[OF unsaved(4)] by auto
    ultimately show ?thesis using o1 n1 g by (simp add: get_unfold)
  next
    case (migrate x' attr c y c2)
    have "(''warning'', deprecation_message old new, []) \<in> set (stderr self')"
      using check_loop_log[OF migrate(7)] by auto
    with migrate(3) show ?thesis by simp
  qed
qed

text \<open>
  C1, as the code has it. Let construction complete, and take an entry of the table whose
  old path held a value when the files, the environment and the keyword arguments had been
  merged. The warning for the entry has been logged. Where the event was saved (the import
  of the event model and the save raised nothing), \<open>get\<close> finds nothing at the old path,
  \<open>get\<close> of the new path returns the value that was at the old path, and no dict along
  the old path is left empty. Where the import raised \<open>ImportError\<close>, the entry is left
  as it was: the old path keeps its value and \<open>get\<close> of the new path returns what it
  returned before.
\<close>

theorem deprecation_migration:
  assumes "merge_sources w kwargs = Inr self"
    and "init w kwargs = Inr self'"
    and "(old, new) \<in> set DEPRECATIONS"
    and "get self old PUnset ''.'' = Inr x" and "x \<noteq> PUnset"
  shows "(''warning'', deprecation_message old new, []) \<in> set (stderr self')
       \<and> (event_save w (deprecation_message old new) = None
            \<longrightarrow> get self' old PUnset ''.'' = Inr PUnset
                \<and> get self' new PNone ''.'' = Inr x
                \<and> (\<forall>P. P \<noteq> [] \<and> proper_prefix P (split_from ''.'' [] old)
                       \<longrightarrow> node_at (config self') P \<noteq> Some (PDict [])))
       \<and> (event_save w (deprecation_message old new) = Some ImportError
            \<longrightarrow> get self' old PUnset ''.'' = Inr x
                \<and> get self' new PNone ''.'' = get self new PNone ''.'')"
proof -
  from independent_split[OF DEPRECATIONS_independent assms(3)] obtain pre post where
    t: "DEPRECATIONS = pre @ (old, new) # post"
    and ap: "\<forall>e' \<in> set pre \<union> set post. apart e' (old, new)"
    and dv: "divergent (split_from ''.'' [] new) (split_from ''.'' [] old)"
    by auto
  from assms(1,2) t have run: "check_loop w self (pre @ (old, new) # post) = Inr self'"
    by (simp add: init_def check_deprecations_def)
  have "event_save w (deprecation_message old new) = None
            \<longrightarrow> get self' old PUnset ''.'' = Inr PUnset
                \<and> get self' new PNone ''.'' = Inr x
                \<and> (\<forall>P. P \<noteq> [] \<and> proper_prefix P (split_from ''.'' [] old)
                       \<longrightarrow> node_at (config self') P \<noteq> Some (PDict []))"
    using check_loop_migrates[OF run ap dv assms(4,5)]
      check_loop_migrates_pruned[OF run ap dv assms(4,5)]
    by blast
  with check_loop_unsaved[OF run ap assms(4,5)] show ?thesis by blast
qed

theorem deprecation_migration_witness:
  "get \<lparr>config = PDict [(''redis'', PDict [(''port'', PAttr (PInt 6379) ENV (Some ''redis.port'')),
                                            (''host'', PAttr (PStr ''cache'') URI (Some ''cache''))]),
                        (''cache'', PDict [(''timeout'', PAttr (PInt 300) UNSPECIFIED None)])],
        stderr = [(''debug'', ''Loaded environment variables'', [(''count'', LInt 2)]),
                  (''warning'', deprecation_message ''redis.cache_timeout'' ''cache.timeout'', [])]\<rparr>
       ''redis.cache_timeout'' PUnset ''.'' = Inr PUnset
   \<and> get \<lparr>config = PDict [(''redis'', PDict [(''port'', PAttr (PInt 6379) ENV (Some ''redis.port'')),
                                            (''host'', PAttr (PStr ''cache'') URI (Some ''cache''))]),
                        (''cache'', PDict [(''timeout'', PAttr (PInt 300) UNSPECIFIED None)])],
        stderr = [(''debug'', ''Loaded environment variables'', [(''count'', LInt 2)]),
                  (''warning'', deprecation_message ''redis.cache_timeout'' ''cache.timeout'', [])]\<rparr>
       ''cache.timeout'' PNone ''.'' = Inr (PInt 300)"
proof -
  let ?kw = "[(''redis'', PDict [(''cache_timeout'', PInt 300)])]"
  let ?S = "\<lparr>config = PDict [(''redis'', PDict [(''port'', PAttr (PInt 6379) ENV (Some ''redis.port'')),
                                            (''host'', PAttr (PStr ''cache'') URI (Some ''cache'')),
                                            (''cache_timeout'', PAttr (PInt 300) UNSPECIFIED None)])],
        stderr = [(''debug'', ''Loaded environment variables'', [(''count'', LInt 2)])]\<rparr>"
  let ?S' = "\<lparr>config = PDict [(''redis'', PDict [(''port'', PAttr (PInt 6379) ENV (Some ''redis.port'')),
                                            (''host'', PAttr (PStr ''cache'') URI (Some ''cache''))]),
                        (''cache'', PDict [(''timeout'', PAttr (PInt 300) UNSPECIFIED None)])],
        stderr = [(''debug'', ''Loaded environment variables'', [(''count'', LInt 2)]),
                  (''warning'', deprecation_message ''redis.cache_timeout'' ''cache.timeout'', [])]\<rparr>"
  have m: "merge_sources sample_world ?kw = Inr ?S"
    by (simp add: merge_sources_def relative_key_port relative_key_host update_from_env_def
          sample_world_def startswith_def ENV_PREFIX_def set_path_in_dict_def split_def log_def
          parse_uri_def)
  have c: "check_deprecations sample_world ?S = Inr ?S'"
    by (simp add: check_deprecations_def DEPRECATIONS_def get_def get_path_from_dict_def
          split_def log_def sample_world_def set_conf_def set_path_in_dict_def)
  have i: "init sample_world ?kw = Inr ?S'"
    using m c by (simp add: init_def)
  have e: "(''redis.cache_timeout'', ''cache.timeout'') \<in> set DEPRECATIONS"
    by (simp add: DEPRECATIONS_def)
  have g: "get ?S ''redis.cache_timeout'' PUnset ''.'' = Inr (PInt 300)"
    by (simp add: get_def get_path_from_dict_def split_def)
  have x: "PInt 300 \<noteq> PUnset" by simp
  have v: "event_save sample_world (deprecation_message ''redis.cache_timeout'' ''cache.timeout'') = None"
    by (simp add: sample_world_def)
  from deprecation_migration[OF m i e g x] v show ?thesis by simp
qed

text \<open>
  C1 as stated migrates every entry whose old path holds a value. Where the import of the
  event model raises \<open>ImportError\<close>, the handler goes on to the next entry: the warning
  is logged, \<open>geoip\<close> keeps its value and the new path stays absent.
\<close>

theorem deprecation_kept_without_event:
  "(''geoip'', ''events.context_processors.geoip'') \<in> set DEPRECATIONS
   \<and> init closed_world [(''geoip'', PStr ''GeoLite2-City.mmdb'')]
       = Inr \<lparr>config = PDict [(''postgresql'',
                           PDict [(''host'', PAttr (PStr ''localhost'') URI (Some ''localhost''))]),
                         (''geoip'', PAttr (PStr ''GeoLite2-City.mmdb'') URI (Some ''GeoLite2-City.mmdb''))],
              stderr = [(''debug'', ''Loaded environment variables'', [(''count'', LInt 1)]),
                        (''warning'', deprecation_message ''geoip'' ''events.context_processors.geoip'', [])]\<rparr>
   \<and> get \<lparr>config = PDict [(''postgresql'',
                           PDict [(''host'', PAttr (PStr ''localhost'') URI (Some ''localhost''))]),
                         (''geoip'', PAttr (PStr ''GeoLite2-City.mmdb'') URI (Some ''GeoLite2-City.mmdb''))],
              stderr = [(''debug'', ''Loaded environment variables'', [(''count'', LInt 1)]),
                        (''warning'', deprecation_message ''geoip'' ''events.context_processors.geoip'', [])]\<rparr>
         ''geoip'' PNone ''.'' = Inr (PStr ''GeoLite2-City.mmdb'')
   \<and> get \<lparr>config = PDict [(''postgresql'',
                           PDict [(''host'', PAttr (PStr ''localhost'') URI (Some ''localhost''))]),
                         (''geoip'', PAttr (PStr ''GeoLite2-City.mmdb'') URI (Some ''GeoLite2-City.mmdb''))],
              stderr = [(''debug'', ''Loaded environment variables'', [(''count'', LInt 1)]),
                        (''warning'', deprecation_message ''geoip'' ''events.context_processors.geoip'', [])]\<rparr>
         ''events.context_processors.geoip'' PNone ''.'' = Inr PNone"
  by (simp add: init_def merge_sources_def relative_key_pg update_from_env_def closed_world_def
        startswith_def ENV_PREFIX_def set_path_in_dict_def split_def log_def parse_uri_def
        check_deprecations_def DEPRECATIONS_def get_def get_path_from_dict_def)

subsection \<open>The remaining cases of reading a path and of loading a file\<close>

text \<open>
  What the walk of \<open>get_path_from_dict\<close> does on a tree of dicts and \<open>Attr\<close>
  leaves: it raises \<open>TypeError\<close> exactly when it meets an \<open>Attr\<close> before the end
  of the path; otherwise it returns the node that the path addresses, or the default where
  there is none.
\<close>

lemma get_path_loop_tree:
  "is_node root \<Longrightarrow>
   get_path_loop root parts d =
     (if \<exists>P v st src. proper_prefix P parts \<and> node_at root P = Some (PAttr v st src)
      then Inl TypeError
      else Inr (case node_at root parts of Some x \<Rightarrow> x | None \<Rightarrow> d))"
proof (induction parts arbitrary: root)
  case (Cons p ps)
  show ?case
  proof (cases root)
    case (PAttr v st src)
    have "proper_prefix [] (p # ps) \<and> node_at root [] = Some (PAttr v st src)"
      using PAttr by simp
    then have "\<exists>P v st src. proper_prefix P (p # ps) \<and> node_at root P = Some (PAttr v st src)"
      by blast
    then show ?thesis using PAttr by simp
  next
    case (PDict m)
    show ?thesis
    proof (cases "map_of m p")
      case None
      have "\<not> (\<exists>P v st src. proper_prefix P (p # ps) \<and> node_at root P = Some (PAttr v st src))"
      proof
        assume "\<exists>P v st src. proper_prefix P (p # ps) \<and> node_at root P = Some (PAttr v st src)"
        then obtain P v st src where "proper_prefix P (p # ps)" "node_at root P = Some (PAttr v st src)"
          by blast
        then show False using PDict None by (cases P) auto
      qed
      then show ?thesis using PDict None
        by (simp add: get_path_loop_dict del: get_path_loop.simps)
    next
      case (Some c)
      then have "(p, c) \<in> set m" by (rule map_of_SomeD)
      with Cons.prems PDict have nc: "is_node c" by (auto simp: list_all_iff)
      have eq: "(\<exists>P v st src. proper_prefix P (p # ps) \<and> node_at root P = Some (PAttr v st src))
                = (\<exists>P v st src. proper_prefix P ps \<and> node_at c P = Some (PAttr v st src))"
      proof
        assume "\<exists>P v st src. proper_prefix P (p # ps) \<and> node_at root P = Some (PAttr v st src)"
        then obtain P v st src where pp: "proper_prefix P (p # ps)"
          and n: "node_at root P = Some (PAttr v st src)" by blast
        from n PDict obtain P' where P: "P = p # P'"
          using pp by (cases P) auto
        with pp n PDict Some have "proper_prefix P' ps \<and> node_at c P' = Some (PAttr v st src)"
          by simp
        then show "\<exists>P v st src. proper_prefix P ps \<and> node_at c P = Some (PAttr v st src)"
          by blast
      next
        assume "\<exists>P v st src. proper_prefix P ps \<and> node_at c P = Some (PAttr v st src)"
        then obtain P v st src where "proper_prefix P ps" "node_at c P = Some (PAttr v st src)"
          by blast
        then have "proper_prefix (p # P) (p # ps) \<and> node_at root (p # P) = Some (PAttr v st src)"
          using PDict Some by simp
        then show "\<exists>P v st src. proper_prefix P (p # ps) \<and> node_at root P = Some (PAttr v st src)"
          by blast
      qed
      show ?thesis
        unfolding eq using Cons.IH[OF nc] PDict Some
        by (simp add: get_path_loop_dict del: get_path_loop.simps)
    qed
  qed (use Cons.prems in auto)
qed simp

text \<open>
  The other cases of \<open>update_from_file\<close>. Merging raises neither \<open>PermissionError\<close>
  nor a YAML error, so \<open>ImproperlyConfigured\<close> is raised exactly when the file was read
  and its text is no YAML; and with a plain string for the path, a permission error is
  logged and the tree is left as it was.
\<close>

lemma update_items_raises:
  "update_items w err root m = Inl e
   \<Longrightarrow> e \<in> {TypeError, AttributeError, ValueError, RuntimeError}"
proof (induction "size (PDict m)" arbitrary: m err root rule: less_induct)
  case less
  from less.prems obtain kv rest where m: "m = kv # rest" by (cases m) auto
  obtain key v where kv: "kv = (key, v)" by (cases kv)
  have rest: "update_items w err' root' rest = Inl e \<Longrightarrow> ?case" for err' root'
    using less.hyps[of rest err' root'] m by simp
  have sd: "setitem r k x = Inl e \<Longrightarrow> ?case" for r k x
    by (cases r) auto
  have dg: "dict_get r k x = Inl e \<Longrightarrow> ?case" for r k x
    by (cases r) auto
  have pu: "parse_uri w err' s = Inl e \<Longrightarrow> ?case" for err' s
    by (auto simp: parse_uri_def log_def Let_def split: option.splits sum.splits if_splits)
  have rs: "resolve w err' x = Inl e \<Longrightarrow> ?case" for err' x
  proof (cases x)
    case (PAttr y st src)
    assume "resolve w err' x = Inl e"
    with PAttr pu show ?thesis by (cases y) auto
  qed (use pu in auto)
  show ?case
  proof (cases "is_dict v")
    case True
    then obtain m0 where m0: "v = PDict m0" by (cases v) auto
    have sub: "update_items w err' root' m0 = Inl e \<Longrightarrow> ?thesis" for err' root'
      using less.hyps[of m0 err' root'] m kv m0 by simp
    from less.prems m kv m0 show ?thesis
      by (auto split: sum.splits dest: dg sub sd rest)
  next
    case False
    from less.prems m kv show ?thesis
      by (auto simp: update_items_leaf_step[OF False] split: sum.splits dest: rs sd rest
               simp del: update_items.simps)
  qed
qed

lemma update_raises:
  "update w err root doc = Inl e \<Longrightarrow> e \<in> {TypeError, AttributeError, ValueError, RuntimeError}"
  by (cases doc) (auto dest: update_items_raises)

lemma update_from_file_improperly_configured:
  assumes "open_read w (path_str path) \<noteq> Inl ImproperlyConfigured"
    and "open_read w (path_str path) \<noteq> Inl YAMLError"
  shows "update_from_file w self path = Inl ImproperlyConfigured
         \<longleftrightarrow> (\<exists>text. open_read w (path_str path) = Inr text \<and> safe_load w text = None)"
proof (cases "open_read w (path_str path)")
  case (Inl e)
  with assms show ?thesis
    by (cases path) (auto simp: update_from_file_def log_def)
next
  case (Inr contents)
  show ?thesis
  proof (cases "safe_load w contents")
    case None
    with Inr show ?thesis by (simp add: update_from_file_def)
  next
    case (Some doc)
    show ?thesis
    proof (cases "update w (stderr self) (config self) doc")
      case upd: (Inl e)
      with update_raises[OF upd] Inr Some show ?thesis
        by (auto simp: update_from_file_def)
    next
      case upd: (Inr r)
      with Inr Some show ?thesis
        by (cases r) (auto simp: update_from_file_def log_def)
    qed
  qed
qed

lemma update_from_file_permission_error_str:
  "open_read w p = Inl PermissionError
   \<Longrightarrow> update_from_file w self (StrPath p)
       = Inr (self\<lparr>stderr := stderr self @ [(''warning'', ''Permission denied while reading file'',
                  [(''path'', LStr p), (''error'', LStr (exc_text w p))])]\<rparr>)"
  by (simp add: update_from_file_def log_def)

end
